theory Spec2Isabelle
  imports Complex_Main "HOL-Library.Product_Lexorder"
begin

section \<open>Data model of the routing environment (routing/env.py)\<close>

text \<open>
  Python exceptions are values. Node and qubit indices are natural numbers; an index that is
  not below the length of the array or list it is used on raises \<open>IndexError\<close>, a key that a
  dictionary lacks raises \<open>KeyError\<close>, unpacking or subscripting \<open>None\<close> raises \<open>TypeError\<close>.
  Rewards and error rates are Python floats; they are read as real numbers here.
\<close>

datatype error = IndexError | KeyError | TypeError | ValueError string

datatype variant = SequentialRoutingEnv | LayeredRoutingEnv

text \<open>
  An operation of the circuit: \<open>CXGate\<close> is the class tested by \<open>isinstance(op, CXGate)\<close>,
  \<open>SwapGate\<close> and \<open>BridgeGate\<close> are the two gates the router inserts, every other
  operation is named.
\<close>

datatype gate = CXGate | SwapGate | BridgeGate | OtherGate string

text \<open>
  A \<open>DAGOpNode\<close>: its identity, its operation and its qubit operands. A \<open>Qubit\<close> is
  represented by its index in the circuit.
\<close>

record op_node =
  node_id :: nat
  op :: gate
  qargs :: "nat list"

text \<open>
  The circuit DAG holds the operations that are not routed yet, in circuit order; an operation
  depends on every earlier operation it shares a qubit with.
\<close>

type_synonym dag = "op_node list"

record quantum_circuit =
  circuit_num_qubits :: nat
  circuit_ops :: "op_node list"

text \<open>
  The coupling map with what rustworkx computes from it: the all-pairs shortest-path table
  (\<open>None\<close> where the table has no entry) and the distance matrix.
\<close>

record graph =
  num_nodes :: nat
  graph_edge_list :: "(nat \<times> nat) list"
  graph_all_pairs_dijkstra_shortest_paths :: "nat \<Rightarrow> nat \<Rightarrow> nat list option"
  graph_distance_matrix :: "nat \<Rightarrow> nat \<Rightarrow> nat"

text \<open>
  \<open>NoiseConfig\<close> (module routing.noise is not part of the sources): the added-gate constant
  and the transform from error rates to log reliabilities are taken as given.
\<close>

record noise_config =
  added_gate_reward :: real
  calculate_log_reliabilities :: "real list \<Rightarrow> real list"

text \<open>
  The result of qiskit's \<open>CommutationAnalysis\<close>: \<open>comm_index (n, q)\<close> is
  \<open>commutation_set[(op_node, qubit)]\<close> for the node with identity \<open>n\<close>, and \<open>comm_sets q\<close>
  is \<open>commutation_set[qubit]\<close>.
\<close>

record commutation_set =
  comm_index :: "nat \<times> nat \<Rightarrow> nat option"
  comm_sets :: "nat \<Rightarrow> op_node list list option"

text \<open>
  The attributes of an environment that are plain values or are never mutated in place, then
  the environment itself with its six mutable collections held by value.
\<close>

record env_attrs =
  variant :: variant
  coupling_map :: graph
  circuit :: quantum_circuit
  initial_mapping :: "nat list"
  allow_bridge_gate :: bool
  commutation_analysis :: bool
  error_rates :: "real list"
  noise_config :: "noise_config option"
  num_qubits :: nat
  num_edges :: nat
  edge_list :: "(nat \<times> nat) list"
  shortest_paths :: "nat \<Rightarrow> nat \<Rightarrow> nat list option"
  distance_matrix :: "nat \<Rightarrow> nat \<Rightarrow> nat"
  bridge_pairs :: "(nat \<times> nat) list"
  commutation_pass :: "dag \<Rightarrow> commutation_set"
  property_set :: "commutation_set option"
  log_reliabilities :: "real list"
  edge_to_log_reliability :: "nat \<times> nat \<Rightarrow> real option"
  num_scheduled_2q_gates :: nat
  scheduling_reward :: real
  blocked_swap :: "nat option"

record env = env_attrs +
  node_to_qubit :: "nat list"
  qubit_to_node :: "nat list"
  dag :: dag
  routed_gates :: "(gate \<times> nat list) list"
  routed_op_nodes :: "nat set"
  scheduling_map :: "(nat \<times> int) list"

section \<open>Library operations\<close>

definition np_get :: "nat list \<Rightarrow> nat \<Rightarrow> error + nat" where
  "np_get xs i = (if i < length xs then Inr (xs ! i) else Inl IndexError)"

definition np_set :: "nat list \<Rightarrow> nat \<Rightarrow> nat \<Rightarrow> error + nat list" where
  "np_set xs i v = (if i < length xs then Inr (xs[i := v]) else Inl IndexError)"

text \<open>\<open>tuple(self.qubit_to_node[i] for i in indices)\<close>\<close>

fun lookup_all :: "nat list \<Rightarrow> nat list \<Rightarrow> error + nat list" where
  "lookup_all xs [] = Inr []"
| "lookup_all xs (i # js) =
     (case np_get xs i of
        Inl e \<Rightarrow> Inl e
      | Inr v \<Rightarrow> (case lookup_all xs js of Inl e \<Rightarrow> Inl e | Inr vs \<Rightarrow> Inr (v # vs)))"

text \<open>
  Modelled from the spec: \<open>qubits_to_indices\<close> and \<open>indices_to_qubits\<close> (module utils is
  not part of the sources) translate between qubit operands and their indices in the circuit;
  with a qubit represented by its index both are the identity.
\<close>

definition qubits_to_indices :: "quantum_circuit \<Rightarrow> nat list \<Rightarrow> nat list" where
  "qubits_to_indices c qs = qs"

definition indices_to_qubits :: "quantum_circuit \<Rightarrow> nat list \<Rightarrow> nat list" where
  "indices_to_qubits c idxs = idxs"

definition circuit_to_dag :: "quantum_circuit \<Rightarrow> dag" where
  "circuit_to_dag c = circuit_ops c"

definition dag_size :: "dag \<Rightarrow> nat" where
  "dag_size d = length d"

definition remove_op_node :: "dag \<Rightarrow> op_node \<Rightarrow> dag" where
  "remove_op_node d x = filter (\<lambda>y. node_id y \<noteq> node_id x) d"

text \<open>The front layer: the operations that share no qubit with an earlier one.\<close>

fun front_layer_from :: "nat set \<Rightarrow> dag \<Rightarrow> op_node list" where
  "front_layer_from seen [] = []"
| "front_layer_from seen (x # xs) =
     (if set (qargs x) \<inter> seen = {}
      then x # front_layer_from (seen \<union> set (qargs x)) xs
      else front_layer_from (seen \<union> set (qargs x)) xs)"

definition front_layer :: "dag \<Rightarrow> op_node list" where
  "front_layer d = front_layer_from {} d"

definition has_edge :: "graph \<Rightarrow> nat \<Rightarrow> nat \<Rightarrow> bool" where
  "has_edge g a b = ((a, b) \<in> set (graph_edge_list g) \<or> (b, a) \<in> set (graph_edge_list g))"

text \<open>An \<open>OrderedSet\<close> is a list without duplicates; \<open>add\<close> appends a new element.\<close>

definition oset_add :: "'a \<Rightarrow> 'a list \<Rightarrow> 'a list" where
  "oset_add x xs = (if x \<in> set xs then xs else xs @ [x])"

section \<open>The scheduling-lock map (class SchedulingMap)\<close>

definition sm_setitem :: "nat \<Rightarrow> int \<Rightarrow> (nat \<times> int) list \<Rightarrow> (nat \<times> int) list" where
  "sm_setitem k v m =
     (if v = 0 then filter (\<lambda>kv. fst kv \<noteq> k) m
      else if k \<in> fst ` set m then map (\<lambda>kv. if fst kv = k then (k, v) else kv) m
      else m @ [(k, v)])"

definition sm_keys :: "(nat \<times> int) list \<Rightarrow> nat set" where
  "sm_keys m = fst ` set m"

fun sm_decrement_keys :: "nat list \<Rightarrow> (nat \<times> int) list \<Rightarrow> (nat \<times> int) list" where
  "sm_decrement_keys [] m = m"
| "sm_decrement_keys (k # ks) m =
     (case map_of m k of
        None \<Rightarrow> sm_decrement_keys ks m
      | Some v \<Rightarrow> sm_decrement_keys ks (sm_setitem k (v - 1) m))"

definition sm_decrement :: "(nat \<times> int) list \<Rightarrow> (nat \<times> int) list" where
  "sm_decrement m = sm_decrement_keys (map fst m) m"

definition sm_update_all :: "nat list \<Rightarrow> (nat \<times> int) list \<Rightarrow> (nat \<times> int) list" where
  "sm_update_all ks m = fold (\<lambda>k. sm_setitem k 1) ks m"

section \<open>Action primitives and rewards (class RoutingEnv)\<close>

definition terminated :: "env \<Rightarrow> bool" where
  "terminated e = (dag_size (dag e) = 0)"

definition noise_aware :: "env \<Rightarrow> bool" where
  "noise_aware e = (noise_config e \<noteq> None)"

definition remove_op_node_env :: "env \<Rightarrow> op_node \<Rightarrow> env" where
  "remove_op_node_env e x =
     e\<lparr>dag := remove_op_node (dag e) x, routed_op_nodes := insert (node_id x) (routed_op_nodes e)\<rparr>"

definition RoutingEnv_bridge :: "env \<Rightarrow> nat \<Rightarrow> nat \<Rightarrow> nat \<Rightarrow> env" where
  "RoutingEnv_bridge e control middle target =
     e\<lparr>routed_gates :=
         routed_gates e @ [(BridgeGate, indices_to_qubits (circuit e) [control, middle, target])]\<rparr>"

definition RoutingEnv_swap :: "env \<Rightarrow> nat \<times> nat \<Rightarrow> error + env" where
  "RoutingEnv_swap e edge =
     (let qs = indices_to_qubits (circuit e) [fst edge, snd edge];
          e1 = e\<lparr>routed_gates := routed_gates e @ [(SwapGate, qs)]\<rparr>;
          node_a = fst edge;
          node_b = snd edge
      in case np_get (node_to_qubit e1) node_a of
           Inl err \<Rightarrow> Inl err
         | Inr qubit_a \<Rightarrow>
        (case np_get (node_to_qubit e1) node_b of
           Inl err \<Rightarrow> Inl err
         | Inr qubit_b \<Rightarrow>
        (let n2q = (node_to_qubit e1)[node_a := qubit_b, node_b := qubit_a]
         in case np_set (qubit_to_node e1) qubit_a node_b of
              Inl err \<Rightarrow> Inl err
            | Inr q2n1 \<Rightarrow>
           (case np_set q2n1 qubit_b node_a of
              Inl err \<Rightarrow> Inl err
            | Inr q2n2 \<Rightarrow> Inr (e1\<lparr>node_to_qubit := n2q, qubit_to_node := q2n2\<rparr>)))))"

definition gate_reward :: "env \<Rightarrow> nat \<times> nat \<Rightarrow> error + real" where
  "gate_reward e edge =
     (case noise_config e of
        Some nc \<Rightarrow>
          (case edge_to_log_reliability e edge of
             None \<Rightarrow> Inl KeyError
           | Some v \<Rightarrow> Inr (v + added_gate_reward nc))
      | None \<Rightarrow> Inr 1)"

definition swap_reward :: "env \<Rightarrow> nat \<times> nat \<Rightarrow> error + real" where
  "swap_reward e edge =
     (case noise_config e of
        Some nc \<Rightarrow>
          (case edge_to_log_reliability e edge of
             None \<Rightarrow> Inl KeyError
           | Some v \<Rightarrow> Inr (3 * v))
      | None \<Rightarrow> Inr (- 3))"

definition bridge_reward :: "env \<Rightarrow> nat \<Rightarrow> nat \<Rightarrow> nat \<Rightarrow> error + real" where
  "bridge_reward e control middle target =
     (case noise_config e of
        Some nc \<Rightarrow>
          (case edge_to_log_reliability e (middle, target) of
             None \<Rightarrow> Inl KeyError
           | Some v1 \<Rightarrow>
          (case edge_to_log_reliability e (control, middle) of
             None \<Rightarrow> Inl KeyError
           | Some v2 \<Rightarrow> Inr (2 * (v1 + v2) + added_gate_reward nc)))
      | None \<Rightarrow> Inr (- 2))"


section \<open>Bridge candidates\<close>

fun bridge_args_loop ::
  "env \<Rightarrow> op_node list \<Rightarrow> nat \<times> nat \<Rightarrow> error + (op_node \<times> nat list) option" where
  "bridge_args_loop e [] pair = Inr None"
| "bridge_args_loop e (x # xs) pair =
     (if op x = CXGate then
        (case lookup_all (qubit_to_node e) (qubits_to_indices (circuit e) (qargs x)) of
           Inl err \<Rightarrow> Inl err
         | Inr nodes \<Rightarrow>
             if sort nodes = [fst pair, snd pair] then
               (case shortest_paths e (nodes ! 0) (nodes ! 1) of
                  None \<Rightarrow> Inl KeyError
                | Some path \<Rightarrow> Inr (Some (x, path)))
             else bridge_args_loop e xs pair)
      else bridge_args_loop e xs pair)"

definition bridge_args :: "env \<Rightarrow> nat \<times> nat \<Rightarrow> error + (op_node \<times> nat list) option" where
  "bridge_args e pair = bridge_args_loop e (front_layer (dag e)) pair"

section \<open>The scheduler\<close>

text \<open>
  Modelled from the spec: \<open>dag_layers\<close> (module dag_utils is not part of the sources) is the
  layer decomposition of the DAG: the front layer, then the layers of what remains without it.
\<close>

function dag_layers :: "dag \<Rightarrow> op_node list list" where
  "dag_layers d =
     (if d = [] then []
      else front_layer d # dag_layers (filter (\<lambda>x. x \<notin> set (front_layer d)) d))"
  by pat_completeness auto
termination
proof (relation "measure length")
  show "wf (measure length)" by simp
next
  fix d :: dag
  assume "d \<noteq> []"
  then obtain x xs where d: "d = x # xs" by (cases d) auto
  have "x \<in> set (front_layer d)" by (simp add: d front_layer_def)
  then have "length (filter (\<lambda>y. y \<notin> set (front_layer d)) d) < length d"
    unfolding d by (simp add: le_imp_less_Suc)
  then show "(filter (\<lambda>y. y \<notin> set (front_layer d)) d, d) \<in> measure length" by simp
qed

definition is_schedulable :: "env \<Rightarrow> nat list \<Rightarrow> nat set \<Rightarrow> bool" where
  "is_schedulable e nodes locked_nodes =
     (let valid_under_current_mapping =
            (length nodes \<noteq> 2 \<or> has_edge (coupling_map e) (nodes ! 0) (nodes ! 1));
          not_blocked = (locked_nodes \<inter> set nodes = {})
      in valid_under_current_mapping \<and> not_blocked)"

type_synonym gate_scheduling_list = "(op_node \<times> nat list) list"

text \<open>The loop over the operations that commute with a blocked one.\<close>

fun commuting_loop ::
  "env \<Rightarrow> op_node list \<Rightarrow> nat set \<Rightarrow> gate_scheduling_list \<Rightarrow> error + gate_scheduling_list" where
  "commuting_loop e [] locked_nodes gates = Inr gates"
| "commuting_loop e (c # cs) locked_nodes gates =
     (case lookup_all (qubit_to_node e) (qubits_to_indices (circuit e) (qargs c)) of
        Inl err \<Rightarrow> Inl err
      | Inr commuting_nodes \<Rightarrow>
          commuting_loop e cs locked_nodes
            (if is_schedulable e commuting_nodes locked_nodes
             then oset_add (c, commuting_nodes) gates else gates))"

text \<open>The loop over the free qubits of a blocked operation.\<close>

fun free_qargs_loop ::
  "env \<Rightarrow> op_node \<Rightarrow> nat list \<Rightarrow> nat set \<Rightarrow> gate_scheduling_list \<Rightarrow> error + gate_scheduling_list" where
  "free_qargs_loop e x [] locked_nodes gates = Inr gates"
| "free_qargs_loop e x (qubit # qs) locked_nodes gates =
     (case property_set e of
        None \<Rightarrow> Inl TypeError
      | Some cset \<Rightarrow>
     (case comm_index cset (node_id x, qubit) of
        None \<Rightarrow> Inl KeyError
      | Some idx \<Rightarrow>
     (case comm_sets cset qubit of
        None \<Rightarrow> Inl KeyError
      | Some sets \<Rightarrow>
          if idx < length sets then
            (let commuting_op_nodes =
                   filter (\<lambda>y. node_id y \<noteq> node_id x \<and> node_id y \<notin> routed_op_nodes e)
                     (fold oset_add (sets ! idx) [])
             in case commuting_loop e commuting_op_nodes locked_nodes gates of
                  Inl err \<Rightarrow> Inl err
                | Inr gates1 \<Rightarrow> free_qargs_loop e x qs locked_nodes gates1)
          else Inl IndexError)))"

text \<open>
  The main loop of \<open>_schedulable_gates\<close> over the chained layers; its state is the ordered
  set \<open>gates\<close> and the set \<open>locked_nodes\<close>.
\<close>

fun schedulable_loop ::
  "env \<Rightarrow> op_node list \<Rightarrow> gate_scheduling_list \<times> nat set \<Rightarrow>
   error + (gate_scheduling_list \<times> nat set)" where
  "schedulable_loop e [] st = Inr st"
| "schedulable_loop e (x # xs) (gates, locked_nodes) =
     (case lookup_all (qubit_to_node e) (qubits_to_indices (circuit e) (qargs x)) of
        Inl err \<Rightarrow> Inl err
      | Inr nodes \<Rightarrow>
     (case (if is_schedulable e nodes locked_nodes
            then Inr (oset_add (x, nodes) gates, locked_nodes)
            else (case (if commutation_analysis e
                        then free_qargs_loop e x (filter (\<lambda>q. q \<notin> locked_nodes) (qargs x))
                               locked_nodes gates
                        else Inr gates) of
                    Inl err \<Rightarrow> Inl err
                  | Inr gates1 \<Rightarrow> Inr (gates1, locked_nodes \<union> set nodes))) of
        Inl err \<Rightarrow> Inl err
      | Inr st1 \<Rightarrow>
          if card (snd st1) = num_qubits e then Inr st1 else schedulable_loop e xs st1))"

definition RoutingEnv_schedulable_gates :: "env \<Rightarrow> bool \<Rightarrow> error + gate_scheduling_list" where
  "RoutingEnv_schedulable_gates e only_front_layer =
     (let layers = (if only_front_layer then [front_layer (dag e)] else dag_layers (dag e))
      in case schedulable_loop e (concat layers) ([], {}) of
           Inl err \<Rightarrow> Inl err
         | Inr st \<Rightarrow> Inr (fst st))"

definition LayeredRoutingEnv_schedulable_gates :: "env \<Rightarrow> bool \<Rightarrow> error + gate_scheduling_list" where
  "LayeredRoutingEnv_schedulable_gates e only_front_layer =
     (case RoutingEnv_schedulable_gates e only_front_layer of
        Inl err \<Rightarrow> Inl err
      | Inr gates \<Rightarrow>
          Inr (filter (\<lambda>g. sm_keys (scheduling_map e) \<inter> set (snd g) = {}) gates))"

definition schedulable_gates :: "env \<Rightarrow> bool \<Rightarrow> error + gate_scheduling_list" where
  "schedulable_gates e only_front_layer =
     (case variant e of
        SequentialRoutingEnv \<Rightarrow> RoutingEnv_schedulable_gates e only_front_layer
      | LayeredRoutingEnv \<Rightarrow> LayeredRoutingEnv_schedulable_gates e only_front_layer)"

text \<open>Committing a batch: the loop of \<open>_schedule_gates\<close>, then the two counters.\<close>

fun schedule_loop :: "env \<Rightarrow> gate_scheduling_list \<Rightarrow> env" where
  "schedule_loop e [] = e"
| "schedule_loop e (g # gs) =
     schedule_loop
       (remove_op_node_env
          (e\<lparr>routed_gates :=
               routed_gates e @ [(op (fst g), indices_to_qubits (circuit e) (snd g))]\<rparr>)
          (fst g))
       gs"

fun sum_gate_rewards :: "env \<Rightarrow> gate_scheduling_list \<Rightarrow> error + real" where
  "sum_gate_rewards e [] = Inr 0"
| "sum_gate_rewards e (g # gs) =
     (if length (snd g) = 2 then
        (case gate_reward e (snd g ! 0, snd g ! 1) of
           Inl err \<Rightarrow> Inl err
         | Inr r \<Rightarrow> (case sum_gate_rewards e gs of Inl err \<Rightarrow> Inl err | Inr s \<Rightarrow> Inr (r + s)))
      else sum_gate_rewards e gs)"

definition RoutingEnv_schedule_gates :: "env \<Rightarrow> gate_scheduling_list \<Rightarrow> error + env" where
  "RoutingEnv_schedule_gates e gates =
     (let e1 = (schedule_loop e gates)\<lparr>num_scheduled_2q_gates := length gates\<rparr>
      in case sum_gate_rewards e1 gates of
           Inl err \<Rightarrow> Inl err
         | Inr r \<Rightarrow> Inr (e1\<lparr>scheduling_reward := r\<rparr>))"

definition LayeredRoutingEnv_schedule_gates :: "env \<Rightarrow> gate_scheduling_list \<Rightarrow> error + env" where
  "LayeredRoutingEnv_schedule_gates e gates =
     (case RoutingEnv_schedule_gates e gates of
        Inl err \<Rightarrow> Inl err
      | Inr e1 \<Rightarrow>
          Inr (e1\<lparr>scheduling_map := sm_update_all (concat (map snd gates)) (scheduling_map e1)\<rparr>))"

definition schedule_gates :: "env \<Rightarrow> gate_scheduling_list \<Rightarrow> error + env" where
  "schedule_gates e gates =
     (case variant e of
        SequentialRoutingEnv \<Rightarrow> RoutingEnv_schedule_gates e gates
      | LayeredRoutingEnv \<Rightarrow> LayeredRoutingEnv_schedule_gates e gates)"

definition update_state :: "env \<Rightarrow> error + env" where
  "update_state e =
     (case variant e of
        SequentialRoutingEnv \<Rightarrow>
          (case schedulable_gates e False of
             Inl err \<Rightarrow> Inl err
           | Inr gates \<Rightarrow> schedule_gates e gates)
      | LayeredRoutingEnv \<Rightarrow>
          (let e1 = e\<lparr>scheduling_map := sm_decrement (scheduling_map e)\<rparr>
           in case schedulable_gates e1 True of
                Inl err \<Rightarrow> Inl err
              | Inr gates \<Rightarrow> schedule_gates e1 gates))"

text \<open>The overrides of the layered variant lock the nodes they touch.\<close>

definition bridge :: "env \<Rightarrow> nat \<Rightarrow> nat \<Rightarrow> nat \<Rightarrow> env" where
  "bridge e control middle target =
     (case variant e of
        SequentialRoutingEnv \<Rightarrow> RoutingEnv_bridge e control middle target
      | LayeredRoutingEnv \<Rightarrow>
          (let e1 = RoutingEnv_bridge e control middle target
           in e1\<lparr>scheduling_map :=
                   sm_update_all [control, middle, target] (scheduling_map e1)\<rparr>))"

definition swap :: "env \<Rightarrow> nat \<times> nat \<Rightarrow> error + env" where
  "swap e edge =
     (case variant e of
        SequentialRoutingEnv \<Rightarrow> RoutingEnv_swap e edge
      | LayeredRoutingEnv \<Rightarrow>
          (case RoutingEnv_swap e edge of
             Inl err \<Rightarrow> Inl err
           | Inr e1 \<Rightarrow>
               Inr (e1\<lparr>scheduling_map :=
                         sm_update_all [fst edge, snd edge] (scheduling_map e1)\<rparr>)))"


section \<open>Construction, calibration and reset\<close>

text \<open>\<open>for node, qubit in enumerate(self.node_to_qubit): self.qubit_to_node[qubit] = node\<close>\<close>

fun write_inverse :: "nat list \<Rightarrow> (nat \<times> nat) list \<Rightarrow> error + nat list" where
  "write_inverse q2n [] = Inr q2n"
| "write_inverse q2n (nq # rest) =
     (case np_set q2n (snd nq) (fst nq) of
        Inl err \<Rightarrow> Inl err
      | Inr q2n1 \<Rightarrow> write_inverse q2n1 rest)"

text \<open>
  \<open>calibrate\<close> stores the error rates and, in a noise-aware environment, recomputes the log
  reliabilities and the dictionary from edges (in both directions) to them. It has no check
  on the shape of its argument.
\<close>

definition calibrate :: "env \<Rightarrow> real list \<Rightarrow> error + env" where
  "calibrate e rates =
     (let e1 = e\<lparr>error_rates := rates\<rparr>
      in case noise_config e1 of
           None \<Rightarrow> Inr e1
         | Some nc \<Rightarrow>
             (let lr = calculate_log_reliabilities nc rates
              in Inr (e1\<lparr>log_reliabilities := lr,
                         edge_to_log_reliability :=
                           fold (\<lambda>ev m. (m(fst ev \<mapsto> snd ev))((snd (fst ev), fst (fst ev)) \<mapsto> snd ev))
                             (zip (edge_list e1) lr) Map.empty\<rparr>)))"

text \<open>
  The constructor of \<open>RoutingEnv\<close>, with the attributes its two subclasses add
  (\<open>_blocked_swap\<close>, \<open>scheduling_map\<close>). Arrays are one-dimensional, so the shape of an array
  is its length. The commutation pass of qiskit is a parameter.
\<close>

definition RoutingEnv_init ::
  "variant \<Rightarrow> (dag \<Rightarrow> commutation_set) \<Rightarrow> graph \<Rightarrow> quantum_circuit option \<Rightarrow> nat list option \<Rightarrow>
   bool \<Rightarrow> bool \<Rightarrow> real list option \<Rightarrow> noise_config option \<Rightarrow> error + env" where
  "RoutingEnv_init v cpass g circuit_arg initial_mapping_arg allow_bridge comm_analysis
     error_rates_arg noise =
     (let nq = num_nodes g;
          ne = length (graph_edge_list g);
          im = (case initial_mapping_arg of None \<Rightarrow> [0..<nq] | Some m \<Rightarrow> m);
          circ = (case circuit_arg of
                    None \<Rightarrow> \<lparr>circuit_num_qubits = nq, circuit_ops = []\<rparr>
                  | Some c \<Rightarrow> c);
          er = (case error_rates_arg of None \<Rightarrow> replicate ne 0 | Some r \<Rightarrow> r)
      in if length im \<noteq> nq then
           Inl (ValueError ''Initial mapping has invalid shape for the provided coupling map'')
         else if length er \<noteq> ne then
           Inl (ValueError ''Error rates have invalid shape for the provided coupling map'')
         else
           (case write_inverse (replicate (length im) 0) (enumerate 0 im) of
              Inl err \<Rightarrow> Inl err
            | Inr q2n \<Rightarrow>
                (let e = \<lparr>variant = v, coupling_map = g, circuit = circ, initial_mapping = im,
                          allow_bridge_gate = allow_bridge, commutation_analysis = comm_analysis,
                          error_rates = er, noise_config = noise, num_qubits = nq, num_edges = ne,
                          edge_list = graph_edge_list g,
                          shortest_paths = graph_all_pairs_dijkstra_shortest_paths g,
                          distance_matrix = graph_distance_matrix g,
                          bridge_pairs =
                            (if allow_bridge then
                               sort (concat (map (\<lambda>i. map (\<lambda>j. (j, i))
                                 (filter (\<lambda>j. graph_distance_matrix g j i = 2) [0..<i])) [0..<nq]))
                             else []),
                          commutation_pass = cpass, property_set = None,
                          log_reliabilities = [], edge_to_log_reliability = Map.empty,
                          num_scheduled_2q_gates = 0, scheduling_reward = 0, blocked_swap = None,
                          node_to_qubit = im, qubit_to_node = q2n, dag = circuit_to_dag circ,
                          routed_gates = [], routed_op_nodes = {}, scheduling_map = []\<rparr>
                 in if noise \<noteq> None then calibrate e er else Inr e)))"

definition reset_state :: "env \<Rightarrow> error + env" where
  "reset_state e =
     (let e0 = (case variant e of
                  SequentialRoutingEnv \<Rightarrow> e
                | LayeredRoutingEnv \<Rightarrow> e\<lparr>scheduling_map := []\<rparr>);
          e1 = e0\<lparr>node_to_qubit := initial_mapping e0\<rparr>
      in case write_inverse (qubit_to_node e1) (enumerate 0 (node_to_qubit e1)) of
           Inl err \<Rightarrow> Inl err
         | Inr q2n \<Rightarrow> update_state (e1\<lparr>qubit_to_node := q2n\<rparr>))"

definition reset :: "env \<Rightarrow> error + env" where
  "reset e =
     (let circ = (if circuit_num_qubits (circuit e) < num_qubits e
                  then (circuit e)\<lparr>circuit_num_qubits := num_qubits e\<rparr> else circuit e);
          e1 = e\<lparr>circuit := circ, dag := circuit_to_dag circ, routed_gates := [],
                 routed_op_nodes := {}\<rparr>;
          e2 = (if commutation_analysis e1
                then e1\<lparr>property_set := Some (commutation_pass e1 (dag e1))\<rparr> else e1)
      in reset_state e2)"

section \<open>The step functions\<close>

text \<open>
  A step returns the reward, the flags \<open>terminated\<close> and \<open>truncated\<close>, the lines it printed and
  the environment after it. The observation is computed from the environment after the step by
  read-only queries and is left out.
\<close>

type_synonym step_result = "real \<times> bool \<times> bool \<times> string list \<times> env"

text \<open>The action applied by a step of the sequential variant, before the commit.\<close>

definition sequential_action :: "env \<Rightarrow> nat \<Rightarrow> error + (env \<times> real \<times> string list)" where
  "sequential_action e action =
     (if action < num_edges e then
        (if action < length (edge_list e) then
           (let edge = edge_list e ! action
            in case swap e edge of
                 Inl err \<Rightarrow> Inl err
               | Inr e1 \<Rightarrow>
                   (case swap_reward e1 edge of
                      Inl err \<Rightarrow> Inl err
                    | Inr reward \<Rightarrow> Inr (e1, reward, [])))
         else Inl IndexError)
      else
        (if action - num_edges e < length (bridge_pairs e) then
           (let pair = bridge_pairs e ! (action - num_edges e)
            in case bridge_args e pair of
                 Inl err \<Rightarrow> Inl err
               | Inr None \<Rightarrow> Inr (e, 0, [''Invalid BRIDGE action was selected''])
               | Inr (Some args) \<Rightarrow>
                   (case snd args of
                      [control, middle, target] \<Rightarrow>
                        (let e1 = bridge (remove_op_node_env e (fst args)) control middle target
                         in case bridge_reward e1 control middle target of
                              Inl err \<Rightarrow> Inl err
                            | Inr reward \<Rightarrow> Inr (e1, reward, []))
                    | _ \<Rightarrow> Inl TypeError))
         else Inl IndexError))"

definition SequentialRoutingEnv_step :: "env \<Rightarrow> nat \<Rightarrow> error + step_result" where
  "SequentialRoutingEnv_step e action =
     (if terminated e then Inr (0, True, False, [], e)
      else
        (case sequential_action e action of
           Inl err \<Rightarrow> Inl err
         | Inr (e1, reward, printed) \<Rightarrow>
             (case update_state e1 of
                Inl err \<Rightarrow> Inl err
              | Inr e2 \<Rightarrow>
                  (let e3 = e2\<lparr>blocked_swap :=
                                 (if action < num_edges e \<and> num_scheduled_2q_gates e2 = 0
                                  then Some action else None)\<rparr>
                   in Inr (reward + scheduling_reward e2, terminated e3, False, printed, e3)))))"

definition LayeredRoutingEnv_step :: "env \<Rightarrow> nat \<Rightarrow> error + step_result" where
  "LayeredRoutingEnv_step e action =
     (if action < num_edges e then
        (if action < length (edge_list e) then
           (let edge = edge_list e ! action
            in case swap e edge of
                 Inl err \<Rightarrow> Inl err
               | Inr e1 \<Rightarrow>
                   (case swap_reward e1 edge of
                      Inl err \<Rightarrow> Inl err
                    | Inr reward \<Rightarrow> Inr (reward, terminated e1, False, [], e1)))
         else Inl IndexError)
      else if action < num_edges e + length (bridge_pairs e) then
        (let pair = bridge_pairs e ! (action - num_edges e)
         in case bridge_args e pair of
              Inl err \<Rightarrow> Inl err
            | Inr None \<Rightarrow> Inl TypeError
            | Inr (Some args) \<Rightarrow>
                (case snd args of
                   [control, middle, target] \<Rightarrow>
                     (let e1 = bridge (remove_op_node_env e (fst args)) control middle target
                      in case bridge_reward e1 control middle target of
                           Inl err \<Rightarrow> Inl err
                         | Inr reward \<Rightarrow> Inr (reward, terminated e1, False, [], e1))
                 | _ \<Rightarrow> Inl TypeError))
      else
        (case update_state e of
           Inl err \<Rightarrow> Inl err
         | Inr e1 \<Rightarrow> Inr (scheduling_reward e1, terminated e1, False, [], e1)))"

definition step :: "env \<Rightarrow> nat \<Rightarrow> error + step_result" where
  "step e action =
     (case variant e of
        SequentialRoutingEnv \<Rightarrow> SequentialRoutingEnv_step e action
      | LayeredRoutingEnv \<Rightarrow> LayeredRoutingEnv_step e action)"


section \<open>Objects and references: \<open>copy\<close>\<close>

text \<open>
  For \<open>copy\<close> the six collections are objects in a store, and an environment object holds
  references to them next to its plain attributes. A step mutates the collections in place:
  it reads the environment through the references, runs, and writes the collections back
  to the same references.
\<close>

datatype cell =
  Array "nat list"
| DagCell dag
| GateLog "(gate \<times> nat list) list"
| NodeSet "nat set"
| LockMap "(nat \<times> int) list"

type_synonym heap = "cell list"

record env_obj = env_attrs +
  node_to_qubit_ref :: nat
  qubit_to_node_ref :: nat
  dag_ref :: nat
  routed_gates_ref :: nat
  routed_op_nodes_ref :: nat
  scheduling_map_ref :: nat

definition alloc :: "heap \<Rightarrow> cell \<Rightarrow> heap \<times> nat" where
  "alloc h c = (h @ [c], length h)"

definition deref :: "heap \<Rightarrow> nat \<Rightarrow> cell option" where
  "deref h r = (if r < length h then Some (h ! r) else None)"

definition load :: "heap \<Rightarrow> env_obj \<Rightarrow> env option" where
  "load h ob =
     (case (deref h (node_to_qubit_ref ob), deref h (qubit_to_node_ref ob), deref h (dag_ref ob),
            deref h (routed_gates_ref ob), deref h (routed_op_nodes_ref ob),
            deref h (scheduling_map_ref ob)) of
        (Some (Array n2q), Some (Array q2n), Some (DagCell d), Some (GateLog rg),
         Some (NodeSet ron), Some (LockMap sm)) \<Rightarrow>
          Some (env_attrs.extend (env_attrs.truncate ob) (env.fields n2q q2n d rg ron sm))
      | _ \<Rightarrow> None)"

definition store :: "heap \<Rightarrow> env_obj \<Rightarrow> env \<Rightarrow> heap \<times> env_obj" where
  "store h ob e =
     (h[node_to_qubit_ref ob := Array (node_to_qubit e),
        qubit_to_node_ref ob := Array (qubit_to_node e),
        dag_ref ob := DagCell (dag e),
        routed_gates_ref ob := GateLog (routed_gates e),
        routed_op_nodes_ref ob := NodeSet (routed_op_nodes e),
        scheduling_map_ref ob := LockMap (scheduling_map e)],
      env_attrs.extend (env_attrs.truncate e)
        (env_obj.fields (node_to_qubit_ref ob) (qubit_to_node_ref ob) (dag_ref ob)
           (routed_gates_ref ob) (routed_op_nodes_ref ob) (scheduling_map_ref ob)))"

text \<open>A new object for an environment: each collection gets a cell of its own.\<close>

definition new_obj :: "heap \<Rightarrow> env \<Rightarrow> heap \<times> env_obj" where
  "new_obj h e =
     (h @ [Array (node_to_qubit e), Array (qubit_to_node e), DagCell (dag e),
           GateLog (routed_gates e), NodeSet (routed_op_nodes e), LockMap (scheduling_map e)],
      env_attrs.extend (env_attrs.truncate e)
        (env_obj.fields (length h) (length h + 1) (length h + 2) (length h + 3) (length h + 4)
           (length h + 5)))"

text \<open>
  \<open>RoutingEnv.copy\<close>: \<open>copy.copy(self)\<close> copies every attribute by reference; then the two
  mapping arrays, the DAG and the routed-gates list are replaced by copies.
\<close>

definition RoutingEnv_copy :: "heap \<Rightarrow> env_obj \<Rightarrow> (heap \<times> env_obj) option" where
  "RoutingEnv_copy h ob =
     (case load h ob of
        None \<Rightarrow> None
      | Some e \<Rightarrow>
          (let a1 = alloc h (Array (node_to_qubit e));
               a2 = alloc (fst a1) (Array (qubit_to_node e));
               a3 = alloc (fst a2) (DagCell (dag e));
               a4 = alloc (fst a3) (GateLog (routed_gates e))
           in Some (fst a4,
                    ob\<lparr>node_to_qubit_ref := snd a1, qubit_to_node_ref := snd a2,
                       dag_ref := snd a3, routed_gates_ref := snd a4\<rparr>)))"

definition LayeredRoutingEnv_copy :: "heap \<Rightarrow> env_obj \<Rightarrow> (heap \<times> env_obj) option" where
  "LayeredRoutingEnv_copy h ob =
     (case RoutingEnv_copy h ob of
        None \<Rightarrow> None
      | Some (h1, ob1) \<Rightarrow>
          (case load h1 ob1 of
             None \<Rightarrow> None
           | Some e \<Rightarrow>
               (let a = alloc h1 (LockMap (scheduling_map e))
                in Some (fst a, ob1\<lparr>scheduling_map_ref := snd a\<rparr>))))"

definition copy :: "heap \<Rightarrow> env_obj \<Rightarrow> (heap \<times> env_obj) option" where
  "copy h ob =
     (case variant ob of
        SequentialRoutingEnv \<Rightarrow> RoutingEnv_copy h ob
      | LayeredRoutingEnv \<Rightarrow> LayeredRoutingEnv_copy h ob)"

definition step_obj ::
  "heap \<Rightarrow> env_obj \<Rightarrow> nat \<Rightarrow> (error + (real \<times> bool \<times> bool \<times> string list \<times> heap \<times> env_obj)) option" where
  "step_obj h ob action =
     (case load h ob of
        None \<Rightarrow> None
      | Some e \<Rightarrow>
          (case step e action of
             Inl err \<Rightarrow> Some (Inl err)
           | Inr (r, t, tr, printed, e1) \<Rightarrow>
               Some (Inr (r, t, tr, printed, fst (store h ob e1), snd (store h ob e1)))))"

section \<open>Example environments\<close>

definition no_commutation_pass :: "dag \<Rightarrow> commutation_set" where
  "no_commutation_pass d = \<lparr>comm_index = (\<lambda>k. None), comm_sets = (\<lambda>q. None)\<rparr>"

text \<open>The line of three nodes 0 - 1 - 2.\<close>

definition line_graph :: graph where
  "line_graph =
     \<lparr>num_nodes = 3, graph_edge_list = [(0, 1), (1, 2)],
      graph_all_pairs_dijkstra_shortest_paths =
        (\<lambda>a b. if a < 3 \<and> b < 3 \<and> a \<noteq> b
                then Some (if a < b then [a..<Suc b] else rev [b..<Suc a]) else None),
      graph_distance_matrix = (\<lambda>a b. if a \<le> b then b - a else a - b)\<rparr>"

definition cx :: "nat \<Rightarrow> nat \<Rightarrow> nat \<Rightarrow> op_node" where
  "cx n a b = \<lparr>node_id = n, op = CXGate, qargs = [a, b]\<rparr>"

definition line_circuit :: "op_node list \<Rightarrow> quantum_circuit" where
  "line_circuit ops = \<lparr>circuit_num_qubits = 3, circuit_ops = ops\<rparr>"

text \<open>
  The environment that the constructor builds on the line for a circuit, with the identity as
  initial mapping, BRIDGE gates allowed, no commutation analysis and no noise.
\<close>

definition line_env :: "variant \<Rightarrow> op_node list \<Rightarrow> env" where
  "line_env v ops =
     \<lparr>variant = v, coupling_map = line_graph, circuit = line_circuit ops,
      initial_mapping = [0, 1, 2], allow_bridge_gate = True, commutation_analysis = False,
      error_rates = [0, 0], noise_config = None, num_qubits = 3, num_edges = 2,
      edge_list = [(0, 1), (1, 2)],
      shortest_paths = graph_all_pairs_dijkstra_shortest_paths line_graph,
      distance_matrix = graph_distance_matrix line_graph,
      bridge_pairs = [(0, 2)],
      commutation_pass = no_commutation_pass, property_set = None,
      log_reliabilities = [], edge_to_log_reliability = Map.empty,
      num_scheduled_2q_gates = 0, scheduling_reward = 0, blocked_swap = None,
      node_to_qubit = [0, 1, 2], qubit_to_node = [0, 1, 2], dag = ops,
      routed_gates = [], routed_op_nodes = {}, scheduling_map = []\<rparr>"

text \<open>A noise-aware environment on the line, as \<open>calibrate\<close> leaves it.\<close>

definition example_noise :: noise_config where
  "example_noise = \<lparr>added_gate_reward = 1 / 100, calculate_log_reliabilities = map (\<lambda>r. - r)\<rparr>"

definition noisy_line_env :: "variant \<Rightarrow> op_node list \<Rightarrow> env" where
  "noisy_line_env v ops =
     (line_env v ops)\<lparr>noise_config := Some example_noise, error_rates := [1 / 10, 1 / 5],
        log_reliabilities := [- (1 / 10), - (1 / 5)],
        edge_to_log_reliability :=
          [(0, 1) \<mapsto> - (1 / 10), (1, 0) \<mapsto> - (1 / 10), (1, 2) \<mapsto> - (1 / 5), (2, 1) \<mapsto> - (1 / 5)]\<rparr>"

section \<open>The mapping invariant\<close>

text \<open>
  The two arrays are exact mutual inverses: they have the same length, and each one, read at
  an entry of the other, gives back the index of that entry.
\<close>

definition mutual_inverses :: "nat list \<Rightarrow> nat list \<Rightarrow> bool" where
  "mutual_inverses n2q q2n =
     (length n2q = length q2n \<and>
      list_all (\<lambda>n. n2q ! n < length q2n \<and> q2n ! (n2q ! n) = n) [0..<length n2q] \<and>
      list_all (\<lambda>q. q2n ! q < length n2q \<and> n2q ! (q2n ! q) = q) [0..<length q2n])"

section \<open>Bridge candidates of a pair\<close>

text \<open>
  An operation is a bridge candidate of a pair when it is a \<open>CXGate\<close> and the nodes of its
  qubits, sorted, are the pair.
\<close>

definition is_bridge_candidate :: "env \<Rightarrow> nat \<times> nat \<Rightarrow> op_node \<Rightarrow> bool" where
  "is_bridge_candidate e pair x =
     (op x = CXGate \<and>
      (case lookup_all (qubit_to_node e) (qubits_to_indices (circuit e) (qargs x)) of
         Inl err \<Rightarrow> False
       | Inr nodes \<Rightarrow> sort nodes = [fst pair, snd pair]))"

text \<open>A two-qubit operation that is not a \<open>CXGate\<close>.\<close>

definition cz :: "nat \<Rightarrow> nat \<Rightarrow> nat \<Rightarrow> op_node" where
  "cz n a b = \<lparr>node_id = n, op = OtherGate ''cz'', qargs = [a, b]\<rparr>"

section \<open>Reachable states and the effect of an action on the mapping\<close>

text \<open>
  The states reachable from a constructed environment: the constructed one, and every state
  that a successful \<open>reset\<close> or a successful \<open>step\<close> leaves.
\<close>

inductive reachable :: "env \<Rightarrow> env \<Rightarrow> bool" for e0 :: env where
  constructed: "reachable e0 e0"
| after_reset: "reachable e0 e \<Longrightarrow> reset e = Inr e1 \<Longrightarrow> reachable e0 e1"
| after_step: "reachable e0 e \<Longrightarrow> step e action = Inr (reward, fin, trunc, printed, e1) \<Longrightarrow>
               reachable e0 e1"

text \<open>
  The second environment has the mapping arrays, the initial mapping and the edges of the
  first.
\<close>

definition same_mapping :: "env \<Rightarrow> env \<Rightarrow> bool" where
  "same_mapping e e1 =
     (node_to_qubit e1 = node_to_qubit e \<and> qubit_to_node e1 = qubit_to_node e \<and>
      initial_mapping e1 = initial_mapping e \<and> variant e1 = variant e \<and>
      num_edges e1 = num_edges e \<and> edge_list e1 = edge_list e)"

text \<open>
  The mapping arrays of the second environment are those of the first with the two entries of
  a SWAP on the edge exchanged: the qubits at the two nodes, and the nodes of these two qubits.
\<close>

definition swapped_mapping :: "env \<Rightarrow> nat \<times> nat \<Rightarrow> env \<Rightarrow> bool" where
  "swapped_mapping e edge e1 =
     (fst edge < length (node_to_qubit e) \<and> snd edge < length (node_to_qubit e) \<and>
      node_to_qubit e1 = (node_to_qubit e)[fst edge := node_to_qubit e ! snd edge,
                                           snd edge := node_to_qubit e ! fst edge] \<and>
      qubit_to_node e1 = (qubit_to_node e)[node_to_qubit e ! fst edge := snd edge,
                                           node_to_qubit e ! snd edge := fst edge] \<and>
      initial_mapping e1 = initial_mapping e \<and> variant e1 = variant e \<and>
      num_edges e1 = num_edges e \<and> edge_list e1 = edge_list e)"

text \<open>An initial mapping that is a permutation of the node indices.\<close>

definition permutation_mapping :: "nat list \<Rightarrow> bool" where
  "permutation_mapping m = (distinct m \<and> list_all (\<lambda>q. q < length m) m)"

text \<open>What every reachable state keeps when the initial mapping is a permutation.\<close>

definition mapping_invariant :: "env \<Rightarrow> bool" where
  "mapping_invariant e =
     (mutual_inverses (node_to_qubit e) (qubit_to_node e) \<and>
      length (node_to_qubit e) = length (initial_mapping e) \<and>
      permutation_mapping (initial_mapping e))"

section \<open>The nodes of an operation\<close>

text \<open>The node tuple of an operation under the current mapping, as the scheduler computes it.\<close>

definition nodes_of :: "env \<Rightarrow> op_node \<Rightarrow> error + nat list" where
  "nodes_of e x = lookup_all (qubit_to_node e) (qubits_to_indices (circuit e) (qargs x))"

text \<open>
  A circuit on the line of which one CX is blocked before a SWAP on the edge (0, 1) and the
  other after it.
\<close>

definition blocked_pair_circuit :: "op_node list" where
  "blocked_pair_circuit = [cx 0 0 2, cx 1 1 2]"

section \<open>Commutation lookahead\<close>

text \<open>
  The operations that the lookahead of a blocked operation offers on one of its qubits: the
  commutation set of the operation on that qubit, as an ordered set, without the operation
  itself and without the routed operations. This is what one round of the loop over the free
  qubits computes before it tests the candidates.
\<close>

definition commuting_op_nodes :: "env \<Rightarrow> op_node \<Rightarrow> nat \<Rightarrow> error + op_node list" where
  "commuting_op_nodes e x qubit =
     (case property_set e of
        None \<Rightarrow> Inl TypeError
      | Some cset \<Rightarrow>
     (case comm_index cset (node_id x, qubit) of
        None \<Rightarrow> Inl KeyError
      | Some idx \<Rightarrow>
     (case comm_sets cset qubit of
        None \<Rightarrow> Inl KeyError
      | Some sets \<Rightarrow>
          if idx < length sets then
            Inr (filter (\<lambda>y. node_id y \<noteq> node_id x \<and> node_id y \<notin> routed_op_nodes e)
                   (fold oset_add (sets ! idx) []))
          else Inl IndexError)))"

text \<open>
  The gates that the lookahead of a blocked operation schedules: with commutation analysis,
  the candidates on a qubit of the operation whose index is not locked, with their nodes, that
  pass the schedulability test under the locked nodes as they are before the blocked operation
  locks its own.
\<close>

definition lookahead_gates :: "env \<Rightarrow> op_node \<Rightarrow> nat set \<Rightarrow> (op_node \<times> nat list) set" where
  "lookahead_gates e x locked_nodes =
     {g. commutation_analysis e \<and>
         (\<exists>qubit \<in> set (qargs x) - locked_nodes. \<exists>cs.
            commuting_op_nodes e x qubit = Inr cs \<and> fst g \<in> set cs) \<and>
         nodes_of e (fst g) = Inr (snd g) \<and> is_schedulable e (snd g) locked_nodes}"

text \<open>
  Two CX gates with the same control qubit commute: on the line, with CX(0, 2) before
  CX(0, 1), the commutation set of qubit 0 holds both.
\<close>

definition example_commutation_set :: commutation_set where
  "example_commutation_set =
     \<lparr>comm_index = (\<lambda>k. if k = (0, 0) \<or> k = (0, 2) \<or> k = (1, 0) \<or> k = (1, 1)
                          then Some 0 else None),
      comm_sets = (\<lambda>q. if q = 0 then Some [[cx 0 0 2, cx 1 0 1]]
                        else if q = 1 then Some [[cx 1 0 1]]
                        else if q = 2 then Some [[cx 0 0 2]] else None)\<rparr>"

definition commuting_line_env :: env where
  "commuting_line_env =
     (line_env SequentialRoutingEnv [cx 0 0 2, cx 1 0 1])
       \<lparr>commutation_analysis := True, property_set := Some example_commutation_set\<rparr>"

section \<open>Verified properties\<close>

lemma noisy_line_env_calibrated:
  "calibrate ((line_env v ops)\<lparr>noise_config := Some example_noise\<rparr>) [1 / 10, 1 / 5] = Inr (noisy_line_env v ops)"
  by (simp add: calibrate_def noisy_line_env_def line_env_def example_noise_def)

text \<open>
  Claim C9. Without a noise configuration the reward of a committed two-qubit gate is 1, of a
  SWAP -3 and of a BRIDGE -2. With one, the gate reward is the log reliability of the edge plus
  the added-gate constant, the SWAP reward is three times the log reliability of the swapped
  edge, and the BRIDGE reward is twice the sum of the log reliabilities of the two edges of the
  path plus the added-gate constant.
\<close>

theorem reward_rules:
  "(noise_config e = None \<longrightarrow>
      gate_reward e edge = Inr 1 \<and> swap_reward e edge = Inr (- 3) \<and>
      bridge_reward e control middle target = Inr (- 2)) \<and>
   (noise_config e = Some nc \<and> edge_to_log_reliability e edge = Some v \<and>
    edge_to_log_reliability e (middle, target) = Some v1 \<and>
    edge_to_log_reliability e (control, middle) = Some v2 \<longrightarrow>
      gate_reward e edge = Inr (v + added_gate_reward nc) \<and>
      swap_reward e edge = Inr (3 * v) \<and>
      bridge_reward e control middle target = Inr (2 * (v1 + v2) + added_gate_reward nc))"
  by (simp add: gate_reward_def swap_reward_def bridge_reward_def)

theorem reward_rules_witness:
  "gate_reward (line_env SequentialRoutingEnv []) (0, 1) = Inr 1 \<and>
   swap_reward (line_env SequentialRoutingEnv []) (0, 1) = Inr (- 3) \<and>
   bridge_reward (line_env SequentialRoutingEnv []) 0 1 2 = Inr (- 2) \<and>
   gate_reward (noisy_line_env SequentialRoutingEnv []) (0, 1) = Inr (- (9 / 100)) \<and>
   swap_reward (noisy_line_env SequentialRoutingEnv []) (0, 1) = Inr (- (3 / 10)) \<and>
   bridge_reward (noisy_line_env SequentialRoutingEnv []) 0 1 2 = Inr (- (59 / 100))"
  using reward_rules [of "line_env SequentialRoutingEnv []" "(0, 1)" 0 1 2]
    reward_rules [of "noisy_line_env SequentialRoutingEnv []" "(0, 1)" 0 1 2 example_noise
      "- (1 / 10)" "- (1 / 5)" "- (1 / 10)"]
  by (simp add: line_env_def noisy_line_env_def example_noise_def)

text \<open>
  Claim C5. In the sequential variant a terminated environment is absorbing: every step
  returns reward zero, reports termination and leaves the environment as it is.
\<close>

theorem terminated_is_absorbing:
  "variant e = SequentialRoutingEnv \<Longrightarrow> terminated e \<Longrightarrow>
   step e action = Inr (0, True, False, [], e) \<and> SequentialRoutingEnv_step e action = Inr (0, True, False, [], e)"
  by (simp add: step_def SequentialRoutingEnv_step_def)

theorem terminated_is_absorbing_witness:
  "variant (line_env SequentialRoutingEnv []) = SequentialRoutingEnv \<and>
   terminated (line_env SequentialRoutingEnv []) \<and>
   step (line_env SequentialRoutingEnv []) 1 = Inr (0, True, False, [], line_env SequentialRoutingEnv [])"
  using terminated_is_absorbing [of "line_env SequentialRoutingEnv []" 1]
  by (simp add: line_env_def terminated_def dag_size_def)

lemma bridge_args_terminated: "terminated e \<Longrightarrow> bridge_args e pair = Inr None"
  by (simp add: terminated_def dag_size_def bridge_args_def front_layer_def)

text \<open>
  Claim C10. The step of the layered variant does not test for termination and does not check
  a BRIDGE action: when the selected pair has no bridge candidate (as for every pair of a
  terminated environment) it raises by unpacking \<open>None\<close>, where the sequential variant prints
  a diagnostic and goes on with reward zero.
\<close>

theorem layered_invalid_bridge_raises:
  assumes "num_edges e \<le> action" and "action < num_edges e + length (bridge_pairs e)"
    and "bridge_args e (bridge_pairs e ! (action - num_edges e)) = Inr None \<or> terminated e"
  shows "LayeredRoutingEnv_step e action = Inl TypeError \<and>
         sequential_action e action = Inr (e, 0, [''Invalid BRIDGE action was selected''])"
proof -
  from assms(3) have none: "bridge_args e (bridge_pairs e ! (action - num_edges e)) = Inr None"
    using bridge_args_terminated by blast
  from assms(1,2) have idx: "action - num_edges e < length (bridge_pairs e)" "\<not> action < num_edges e"
    by linarith+
  show ?thesis using none idx assms(2)
    by (simp add: LayeredRoutingEnv_step_def sequential_action_def)
qed

theorem layered_invalid_bridge_raises_witness:
  "bridge_args (line_env LayeredRoutingEnv [cx 0 0 1]) (0, 2) = Inr None \<and>
   step (line_env LayeredRoutingEnv [cx 0 0 1]) 2 = Inl TypeError \<and>
   step (line_env LayeredRoutingEnv []) 2 = Inl TypeError"
proof -
  have n: "bridge_args (line_env LayeredRoutingEnv [cx 0 0 1]) (0, 2) = Inr None" by code_simp
  have t: "terminated (line_env LayeredRoutingEnv [])" by code_simp
  show ?thesis
    using n layered_invalid_bridge_raises [of "line_env LayeredRoutingEnv [cx 0 0 1]" 2]
      layered_invalid_bridge_raises [of "line_env LayeredRoutingEnv []" 2] t
    by (simp add: step_def line_env_def)
qed

text \<open>
  Claim C6. \<open>calibrate\<close> does not reject an array of error rates whose length differs from
  the number of edges: on the line with its two edges, three rates are stored. The constructor
  rejects such an array.
\<close>

theorem calibrate_accepts_any_shape:
  "length [1 / 10, 1 / 5, 3 / 10 :: real] \<noteq> num_edges (line_env SequentialRoutingEnv []) \<and>
   calibrate (line_env SequentialRoutingEnv []) [1 / 10, 1 / 5, 3 / 10] =
     Inr ((line_env SequentialRoutingEnv [])\<lparr>error_rates := [1 / 10, 1 / 5, 3 / 10]\<rparr>)"
  by (simp add: calibrate_def line_env_def)

lemma init_rejects_error_rates:
  "length rates \<noteq> length (graph_edge_list g) \<Longrightarrow> length im = num_nodes g \<Longrightarrow>
   RoutingEnv_init v cp g c (Some im) ab ca (Some rates) nc =
     Inl (ValueError ''Error rates have invalid shape for the provided coupling map'')"
  by (simp add: RoutingEnv_init_def Let_def)

lemma init_rejects_error_rates_any:
  "length rates \<noteq> length (graph_edge_list g) \<Longrightarrow> \<exists>msg.
   RoutingEnv_init v cp g c im ab ca (Some rates) nc = Inl (ValueError msg)"
  by (simp add: RoutingEnv_init_def Let_def split: option.splits)

subsection \<open>SWAP and the mapping arrays\<close>

lemma mutual_inverses_iff:
  "mutual_inverses n2q q2n \<longleftrightarrow>
     length n2q = length q2n \<and>
     (\<forall>n < length n2q. n2q ! n < length q2n \<and> q2n ! (n2q ! n) = n) \<and>
     (\<forall>q < length q2n. q2n ! q < length n2q \<and> n2q ! (q2n ! q) = q)"
  by (auto simp: mutual_inverses_def list_all_iff)

lemma mutual_inverses_sym: "mutual_inverses n2q q2n \<Longrightarrow> mutual_inverses q2n n2q"
  by (auto simp: mutual_inverses_iff)

lemma swap_lists_forward:
  assumes len: "length q2n = length n2q"
    and fw: "\<And>n. n < length n2q \<Longrightarrow> n2q ! n < length n2q \<and> q2n ! (n2q ! n) = n"
    and a: "a < length n2q" and b: "b < length n2q" and n: "n < length n2q"
  shows "n2q[a := n2q ! b, b := n2q ! a] ! n < length n2q \<and>
         q2n[n2q ! a := b, n2q ! b := a] ! (n2q[a := n2q ! b, b := n2q ! a] ! n) = n"
proof -
  have inj: "\<And>i j. i < length n2q \<Longrightarrow> j < length n2q \<Longrightarrow> n2q ! i = n2q ! j \<Longrightarrow> i = j"
    by (metis fw)
  have qa: "n2q ! a < length q2n" and qb: "n2q ! b < length q2n"
    using fw a b len by simp_all
  consider "n = b" | "n \<noteq> b" "n = a" | "n \<noteq> b" "n \<noteq> a" by blast
  then show ?thesis
  proof cases
    case 1
    have "n2q[a := n2q ! b, b := n2q ! a] ! n = n2q ! a" using 1 b by simp
    moreover have "q2n[n2q ! a := b, n2q ! b := a] ! (n2q ! a) = b"
      using qa qb inj[OF a b] by (cases "n2q ! a = n2q ! b") simp_all
    ultimately show ?thesis using 1 fw[OF a] by simp
  next
    case 2
    have "n2q[a := n2q ! b, b := n2q ! a] ! n = n2q ! b" using 2 a by simp
    moreover have "q2n[n2q ! a := b, n2q ! b := a] ! (n2q ! b) = a"
      using qb by simp
    ultimately show ?thesis using 2 fw[OF b] by simp
  next
    case 3
    have e: "n2q[a := n2q ! b, b := n2q ! a] ! n = n2q ! n" using 3 by simp
    have "n2q ! n \<noteq> n2q ! a" "n2q ! n \<noteq> n2q ! b"
      using 3 inj[OF n a] inj[OF n b] by blast+
    then have "q2n[n2q ! a := b, n2q ! b := a] ! (n2q ! n) = q2n ! (n2q ! n)" by simp
    then show ?thesis using e fw[OF n] by simp
  qed
qed

lemma swap_lists_backward:
  assumes len: "length q2n = length n2q"
    and fw: "\<And>n. n < length n2q \<Longrightarrow> n2q ! n < length n2q \<and> q2n ! (n2q ! n) = n"
    and bw: "\<And>q. q < length n2q \<Longrightarrow> q2n ! q < length n2q \<and> n2q ! (q2n ! q) = q"
    and a: "a < length n2q" and b: "b < length n2q" and q: "q < length n2q"
  shows "q2n[n2q ! a := b, n2q ! b := a] ! q < length n2q \<and>
         n2q[a := n2q ! b, b := n2q ! a] ! (q2n[n2q ! a := b, n2q ! b := a] ! q) = q"
proof -
  have inj: "\<And>i j. i < length n2q \<Longrightarrow> j < length n2q \<Longrightarrow> q2n ! i = q2n ! j \<Longrightarrow> i = j"
    by (metis bw)
  have qa: "n2q ! a < length q2n" and qb: "n2q ! b < length q2n"
    using fw a b len by simp_all
  consider "q = n2q ! b" | "q \<noteq> n2q ! b" "q = n2q ! a" | "q \<noteq> n2q ! b" "q \<noteq> n2q ! a" by blast
  then show ?thesis
  proof cases
    case 1
    have "q2n[n2q ! a := b, n2q ! b := a] ! q = a" using 1 qb by simp
    moreover have "n2q[a := n2q ! b, b := n2q ! a] ! a = n2q ! b"
      using a b by (cases "a = b") simp_all
    ultimately show ?thesis using 1 a by simp
  next
    case 2
    have "q2n[n2q ! a := b, n2q ! b := a] ! q = b" using 2 qa by simp
    moreover have "n2q[a := n2q ! b, b := n2q ! a] ! b = n2q ! a" using b by simp
    ultimately show ?thesis using 2 b by simp
  next
    case 3
    have e: "q2n[n2q ! a := b, n2q ! b := a] ! q = q2n ! q" using 3 by simp
    have "q2n ! q \<noteq> a" "q2n ! q \<noteq> b"
      using 3 bw[OF q] by auto
    then have "n2q[a := n2q ! b, b := n2q ! a] ! (q2n ! q) = n2q ! (q2n ! q)" by simp
    then show ?thesis using e bw[OF q] by simp
  qed
qed

lemma swap_lists_inverse:
  assumes "mutual_inverses n2q q2n" and a: "a < length n2q" and b: "b < length n2q"
  shows "mutual_inverses (n2q[a := n2q ! b, b := n2q ! a]) (q2n[n2q ! a := b, n2q ! b := a])"
proof -
  from assms(1) have len: "length q2n = length n2q"
    unfolding mutual_inverses_iff by simp
  from assms(1) have fw: "\<And>n. n < length n2q \<Longrightarrow> n2q ! n < length n2q \<and> q2n ! (n2q ! n) = n"
    unfolding mutual_inverses_iff by metis
  from assms(1) have bw: "\<And>q. q < length n2q \<Longrightarrow> q2n ! q < length n2q \<and> n2q ! (q2n ! q) = q"
    unfolding mutual_inverses_iff by metis
  show ?thesis
    unfolding mutual_inverses_iff
    using swap_lists_forward[OF len fw a b] swap_lists_backward[OF len fw bw a b]
    by (simp add: len)
qed

lemma RoutingEnv_swap_result:
  assumes "mutual_inverses (node_to_qubit e) (qubit_to_node e)"
    and "fst edge < length (node_to_qubit e)" and "snd edge < length (node_to_qubit e)"
  shows "RoutingEnv_swap e edge =
           Inr (e\<lparr>routed_gates := routed_gates e @ [(SwapGate, [fst edge, snd edge])],
                  node_to_qubit := (node_to_qubit e)[fst edge := node_to_qubit e ! snd edge,
                                                     snd edge := node_to_qubit e ! fst edge],
                  qubit_to_node := (qubit_to_node e)[node_to_qubit e ! fst edge := snd edge,
                                                     node_to_qubit e ! snd edge := fst edge]\<rparr>)"
  using assms
  by (simp add: RoutingEnv_swap_def Let_def np_get_def np_set_def indices_to_qubits_def
      mutual_inverses_iff)

lemma swap_lists_twice:
  assumes "mutual_inverses n2q q2n" and a: "a < length n2q" and b: "b < length n2q"
  shows "(n2q[a := n2q ! b, b := n2q ! a])
           [a := n2q[a := n2q ! b, b := n2q ! a] ! b, b := n2q[a := n2q ! b, b := n2q ! a] ! a] = n2q \<and>
         (q2n[n2q ! a := b, n2q ! b := a])
           [n2q[a := n2q ! b, b := n2q ! a] ! a := b, n2q[a := n2q ! b, b := n2q ! a] ! b := a] = q2n"
proof -
  from assms(1) have len: "length q2n = length n2q"
    unfolding mutual_inverses_iff by simp
  from assms(1) have fw: "\<And>n. n < length n2q \<Longrightarrow> n2q ! n < length n2q \<and> q2n ! (n2q ! n) = n"
    unfolding mutual_inverses_iff by metis
  have na: "n2q[a := n2q ! b, b := n2q ! a] ! a = n2q ! b"
    using a b by (cases "a = b") simp_all
  have nb: "n2q[a := n2q ! b, b := n2q ! a] ! b = n2q ! a"
    using b by simp
  have 1: "(n2q[a := n2q ! b, b := n2q ! a])[a := n2q ! a, b := n2q ! b] = n2q"
    by (cases "a = b") (simp_all add: list_update_swap)
  have qa: "q2n ! (n2q ! a) = a" and qb: "q2n ! (n2q ! b) = b" using fw a b by simp_all
  have 2: "(q2n[n2q ! a := b, n2q ! b := a])[n2q ! b := b, n2q ! a := a] = q2n"
  proof (cases "n2q ! a = n2q ! b")
    case True
    have ab: "a = b" by (metis True qa qb)
    have "(q2n[n2q ! a := a, n2q ! a := a])[n2q ! a := a, n2q ! a := a] = q2n[n2q ! a := a]"
      by simp
    also have "\<dots> = q2n" by (metis qa list_update_id)
    finally show ?thesis unfolding ab .
  next
    case False
    have "(q2n[n2q ! a := b, n2q ! b := a])[n2q ! b := b, n2q ! a := a]
            = (q2n[n2q ! a := b])[n2q ! b := b, n2q ! a := a]"
      by simp
    also have "\<dots> = (q2n[n2q ! a := b])[n2q ! a := a, n2q ! b := b]"
      using False by (metis list_update_swap)
    also have "\<dots> = q2n[n2q ! a := a, n2q ! b := b]" by simp
    also have "\<dots> = q2n" by (metis qa qb list_update_id)
    finally show ?thesis .
  qed
  show ?thesis using 1 2 by (simp add: na nb)
qed


lemma swap_result:
  assumes "mutual_inverses (node_to_qubit e) (qubit_to_node e)"
    and "fst edge < length (node_to_qubit e)" and "snd edge < length (node_to_qubit e)"
  shows "\<exists>e1. swap e edge = Inr e1 \<and>
           node_to_qubit e1 = (node_to_qubit e)[fst edge := node_to_qubit e ! snd edge,
                                                snd edge := node_to_qubit e ! fst edge] \<and>
           qubit_to_node e1 = (qubit_to_node e)[node_to_qubit e ! fst edge := snd edge,
                                                node_to_qubit e ! snd edge := fst edge] \<and>
           routed_gates e1 = routed_gates e @ [(SwapGate, [fst edge, snd edge])] \<and>
           swap_reward e1 edge = swap_reward e edge"
  using RoutingEnv_swap_result[OF assms]
  by (cases "variant e") (simp_all add: swap_def swap_reward_def split: option.splits)

text \<open>
  On a mapping whose arrays are mutual inverses, the SWAP primitive applied twice in a row
  succeeds both times and gives back both arrays as they were; the routed-gates log has the
  SWAP twice at its end, and each of the two SWAPs earns the SWAP reward.
\<close>

lemma swap_twice_on_inverse_arrays:
  assumes "mutual_inverses (node_to_qubit e) (qubit_to_node e)"
    and "fst edge < length (node_to_qubit e)" and "snd edge < length (node_to_qubit e)"
  shows "\<exists>e1 e2. swap e edge = Inr e1 \<and> swap e1 edge = Inr e2 \<and>
           node_to_qubit e2 = node_to_qubit e \<and> qubit_to_node e2 = qubit_to_node e \<and>
           routed_gates e1 = routed_gates e @ [(SwapGate, [fst edge, snd edge])] \<and>
           routed_gates e2 = routed_gates e @
             [(SwapGate, [fst edge, snd edge]), (SwapGate, [fst edge, snd edge])] \<and>
           swap_reward e1 edge = swap_reward e edge \<and> swap_reward e2 edge = swap_reward e edge"
proof -
  let ?a = "fst edge" and ?b = "snd edge"
  let ?n2q = "node_to_qubit e" and ?q2n = "qubit_to_node e"
  from swap_result[OF assms] obtain e1 where e1: "swap e edge = Inr e1"
    and n1: "node_to_qubit e1 = ?n2q[?a := ?n2q ! ?b, ?b := ?n2q ! ?a]"
    and q1: "qubit_to_node e1 = ?q2n[?n2q ! ?a := ?b, ?n2q ! ?b := ?a]"
    and g1: "routed_gates e1 = routed_gates e @ [(SwapGate, [?a, ?b])]"
    and r1: "swap_reward e1 edge = swap_reward e edge"
    by blast
  have inv1: "mutual_inverses (node_to_qubit e1) (qubit_to_node e1)"
    unfolding n1 q1 by (rule swap_lists_inverse[OF assms])
  have a1: "?a < length (node_to_qubit e1)" and b1: "?b < length (node_to_qubit e1)"
    using assms(2,3) by (simp_all add: n1)
  from swap_result[OF inv1 a1 b1] obtain e2 where e2: "swap e1 edge = Inr e2"
    and n2: "node_to_qubit e2 = (node_to_qubit e1)[?a := node_to_qubit e1 ! ?b, ?b := node_to_qubit e1 ! ?a]"
    and q2: "qubit_to_node e2 = (qubit_to_node e1)[node_to_qubit e1 ! ?a := ?b, node_to_qubit e1 ! ?b := ?a]"
    and g2: "routed_gates e2 = routed_gates e1 @ [(SwapGate, [?a, ?b])]"
    and r2: "swap_reward e2 edge = swap_reward e1 edge"
    by blast
  have "node_to_qubit e2 = ?n2q \<and> qubit_to_node e2 = ?q2n"
    unfolding n2 q2 unfolding n1 q1 by (rule swap_lists_twice[OF assms])
  then show ?thesis using e1 e2 g1 g2 r1 r2 by simp
qed

lemma swap_twice_on_inverse_arrays_example:
  "mutual_inverses [0, 1, 2] [0, 1, 2] \<and>
   (\<exists>e1 e2. swap (line_env SequentialRoutingEnv []) (0, 1) = Inr e1 \<and> swap e1 (0, 1) = Inr e2 \<and>
      node_to_qubit e1 = [1, 0, 2] \<and> qubit_to_node e1 = [1, 0, 2] \<and>
      node_to_qubit e2 = [0, 1, 2] \<and> qubit_to_node e2 = [0, 1, 2] \<and>
      routed_gates e1 = [(SwapGate, [0, 1])] \<and>
      routed_gates e2 = [(SwapGate, [0, 1]), (SwapGate, [0, 1])] \<and>
      swap_reward e1 (0, 1) = Inr (- 3) \<and> swap_reward e2 (0, 1) = Inr (- 3))"
proof -
  have h: "mutual_inverses [0, 1, 2] [0, 1, 2]" by code_simp
  have s1: "map_sum id node_to_qubit (swap (line_env SequentialRoutingEnv []) (0, 1)) = Inr [1, 0, 2]"
    by code_simp
  have s2: "map_sum id qubit_to_node (swap (line_env SequentialRoutingEnv []) (0, 1)) = Inr [1, 0, 2]"
    by code_simp
  have r: "swap_reward (line_env SequentialRoutingEnv []) (0, 1) = Inr (- 3)"
    by (simp add: swap_reward_def line_env_def)
  from swap_twice_on_inverse_arrays [of "line_env SequentialRoutingEnv []" "(0, 1)"] h
  obtain e1 e2 where "swap (line_env SequentialRoutingEnv []) (0, 1) = Inr e1 \<and> swap e1 (0, 1) = Inr e2 \<and>
           node_to_qubit e2 = [0, 1, 2] \<and> qubit_to_node e2 = [0, 1, 2] \<and>
           routed_gates e1 = [(SwapGate, [0, 1])] \<and>
           routed_gates e2 = [(SwapGate, [0, 1]), (SwapGate, [0, 1])] \<and>
           swap_reward e1 (0, 1) = swap_reward (line_env SequentialRoutingEnv []) (0, 1) \<and>
           swap_reward e2 (0, 1) = swap_reward (line_env SequentialRoutingEnv []) (0, 1)"
    by (auto simp add: line_env_def)
  then show ?thesis using h s1 s2 r by auto
qed

subsection \<open>Bridge candidates\<close>

lemma lookup_all_in_range:
  "set js \<subseteq> {..<length xs} \<Longrightarrow> lookup_all xs js = Inr (map ((!) xs) js)"
  by (induction js) (simp_all add: np_get_def)

lemma sort_two_length: "sort ns = [a, b] \<Longrightarrow> length (ns :: nat list) = 2"
  by (metis length_sort length_Cons list.size(3) numeral_2_eq_2)

lemma bridge_args_loop_find:
  assumes "\<forall>x \<in> set xs. set (qargs x) \<subseteq> {..<length (qubit_to_node e)}"
  shows "bridge_args_loop e xs pair =
           (case find (is_bridge_candidate e pair) xs of
              None \<Rightarrow> Inr None
            | Some x \<Rightarrow>
                (case shortest_paths e (qubit_to_node e ! (qargs x ! 0))
                        (qubit_to_node e ! (qargs x ! 1)) of
                   None \<Rightarrow> Inl KeyError
                 | Some path \<Rightarrow> Inr (Some (x, path))))"
  using assms
proof (induction xs)
  case Nil
  then show ?case by simp
next
  case (Cons x xs)
  have lk: "lookup_all (qubit_to_node e) (qargs x) = Inr (map ((!) (qubit_to_node e)) (qargs x))"
    using Cons.prems by (simp add: lookup_all_in_range)
  show ?case
  proof (cases "is_bridge_candidate e pair x")
    case True
    then have s: "sort (map ((!) (qubit_to_node e)) (qargs x)) = [fst pair, snd pair]"
      and cxg: "op x = CXGate"
      by (simp_all add: is_bridge_candidate_def qubits_to_indices_def lk)
    from sort_two_length[OF s] have "length (qargs x) = 2" by simp
    then have "map ((!) (qubit_to_node e)) (qargs x) ! 0 = qubit_to_node e ! (qargs x ! 0)"
      "map ((!) (qubit_to_node e)) (qargs x) ! 1 = qubit_to_node e ! (qargs x ! 1)"
      by simp_all
    then show ?thesis using True s cxg
      by (simp add: qubits_to_indices_def lk)
  next
    case False
    then show ?thesis using Cons
      by (simp add: is_bridge_candidate_def qubits_to_indices_def lk)
  qed
qed

text \<open>
  Claim C8, amended. When the qubits of the front layer are in range, \<open>_bridge_args\<close>
  returns none exactly when the front layer has no bridge candidate of the pair, that is no
  \<open>CXGate\<close> whose mapped nodes, sorted, are the pair. What it returns otherwise is the first
  candidate of the front layer, with the entry of the shortest-path table from the node of its
  control qubit to the node of its target qubit; it raises \<open>KeyError\<close> when the table has no
  such entry.
\<close>

theorem bridge_args_first_cx_candidate:
  assumes "\<forall>x \<in> set (front_layer (dag e)). set (qargs x) \<subseteq> {..<length (qubit_to_node e)}"
  shows "(bridge_args e pair = Inr None \<longleftrightarrow>
            \<not> (\<exists>x \<in> set (front_layer (dag e)). is_bridge_candidate e pair x)) \<and>
         (\<forall>x path. bridge_args e pair = Inr (Some (x, path)) \<longrightarrow>
            find (is_bridge_candidate e pair) (front_layer (dag e)) = Some x \<and>
            x \<in> set (front_layer (dag e)) \<and> op x = CXGate \<and>
            (\<exists>control target.
               lookup_all (qubit_to_node e) (qubits_to_indices (circuit e) (qargs x)) =
                 Inr [control, target] \<and>
               sort [control, target] = [fst pair, snd pair] \<and>
               shortest_paths e control target = Some path)) \<and>
         (\<forall>x. find (is_bridge_candidate e pair) (front_layer (dag e)) = Some x \<longrightarrow>
            bridge_args e pair = Inl KeyError \<or> (\<exists>path. bridge_args e pair = Inr (Some (x, path))))"
proof -
  let ?fl = "front_layer (dag e)"
  note eq = bridge_args_loop_find[OF assms, of pair, folded bridge_args_def]
  have none: "bridge_args e pair = Inr None \<longleftrightarrow> \<not> (\<exists>x \<in> set ?fl. is_bridge_candidate e pair x)"
    unfolding eq by (auto simp: find_None_iff find_Some_iff split: option.splits)
  have some: "find (is_bridge_candidate e pair) ?fl = Some x \<and> x \<in> set ?fl \<and> op x = CXGate \<and>
            (\<exists>control target.
               lookup_all (qubit_to_node e) (qubits_to_indices (circuit e) (qargs x)) =
                 Inr [control, target] \<and>
               sort [control, target] = [fst pair, snd pair] \<and>
               shortest_paths e control target = Some path)"
    if h: "bridge_args e pair = Inr (Some (x, path))" for x path
  proof -
    from h obtain y where f: "find (is_bridge_candidate e pair) ?fl = Some y"
      unfolding eq by (auto split: option.splits)
    with h have xy: "y = x"
      and sp: "shortest_paths e (qubit_to_node e ! (qargs x ! 0)) (qubit_to_node e ! (qargs x ! 1)) = Some path"
      unfolding eq by (auto split: option.splits)
    from f have mem: "y \<in> set ?fl" and cand: "is_bridge_candidate e pair y"
      by (auto simp: find_Some_iff)
    have lk: "lookup_all (qubit_to_node e) (qargs x) = Inr (map ((!) (qubit_to_node e)) (qargs x))"
      using assms mem xy by (simp add: lookup_all_in_range)
    from cand xy have s: "sort (map ((!) (qubit_to_node e)) (qargs x)) = [fst pair, snd pair]"
      and cxg: "op x = CXGate"
      by (simp_all add: is_bridge_candidate_def qubits_to_indices_def lk)
    from sort_two_length[OF s] have "length (qargs x) = 2" by simp
    then obtain q0 q1 where q: "qargs x = [q0, q1]"
      by (metis (no_types, opaque_lifting) One_nat_def Suc_1 length_0_conv length_Suc_conv)
    show ?thesis using f xy mem cxg s sp lk
      by (simp add: q qubits_to_indices_def)
  qed
  have first: "bridge_args e pair = Inl KeyError \<or> (\<exists>path. bridge_args e pair = Inr (Some (x, path)))"
    if "find (is_bridge_candidate e pair) ?fl = Some x" for x
    unfolding eq using that by (simp split: option.splits)
  show ?thesis using none some first by blast
qed

theorem bridge_args_first_cx_candidate_witness:
  "bridge_args (line_env SequentialRoutingEnv [cx 0 0 1, cx 1 2 0]) (0, 2) = Inr None \<and>
   \<not> (\<exists>x \<in> set (front_layer (dag (line_env SequentialRoutingEnv [cx 0 0 1, cx 1 2 0]))).
        is_bridge_candidate (line_env SequentialRoutingEnv [cx 0 0 1, cx 1 2 0]) (0, 2) x)"
proof -
  have h: "\<forall>x \<in> set (front_layer (dag (line_env SequentialRoutingEnv [cx 0 0 1, cx 1 2 0]))).
             set (qargs x) \<subseteq> {..<length (qubit_to_node (line_env SequentialRoutingEnv [cx 0 0 1, cx 1 2 0]))}"
    by (simp add: line_env_def front_layer_def cx_def)
  have n: "bridge_args (line_env SequentialRoutingEnv [cx 0 0 1, cx 1 2 0]) (0, 2) = Inr None"
    by code_simp
  show ?thesis
    using bridge_args_first_cx_candidate [OF h, of "(0, 2)"] n by blast
qed

lemma bridge_args_example:
  "bridge_args (line_env SequentialRoutingEnv [cx 0 2 0]) (0, 2) = Inr (Some (cx 0 2 0, [2, 1, 0]))"
  by code_simp

text \<open>
  Claim C8 as stated fails: a two-qubit operation that is not a \<open>CXGate\<close> is in the front
  layer, its qubits map to the nodes 0 and 2, and the lookup for the pair (0, 2) returns none.
\<close>

theorem bridge_args_skips_non_cx:
  "front_layer (dag (line_env SequentialRoutingEnv [cz 0 0 2])) = [cz 0 0 2] \<and>
   lookup_all (qubit_to_node (line_env SequentialRoutingEnv [cz 0 0 2])) (qargs (cz 0 0 2)) = Inr [0, 2] \<and>
   bridge_args (line_env SequentialRoutingEnv [cz 0 0 2]) (0, 2) = Inr None"
  by code_simp

subsection \<open>The example environment is what the constructor builds\<close>

lemma line_bridge_pairs:
  "sort (concat (map (\<lambda>i. map (\<lambda>j. (j, i))
     (filter (\<lambda>j. graph_distance_matrix line_graph j i = 2) [0..<i])) [0..<3])) = [(0, 2)]"
  by code_simp

lemma line_write_inverse: "write_inverse (replicate 3 0) (enumerate 0 [0..<3]) = Inr [0, 1, 2]"
  by code_simp

lemma line_upt: "[0..<3] = [0, 1, 2]"
  by code_simp

lemma line_env_constructed:
  "RoutingEnv_init v no_commutation_pass line_graph (Some (line_circuit ops)) None True False
     None None = Inr (line_env v ops)"
proof -
  have g: "num_nodes line_graph = 3" "graph_edge_list line_graph = [(0, 1), (1, 2)]"
    by (simp_all add: line_graph_def)
  have bp: "sort (concat (map (\<lambda>i. map (\<lambda>j. (j, i))
     (filter (\<lambda>j. graph_distance_matrix line_graph j i = 2) [0..<i])) [0..<num_nodes line_graph]))
     = [(0, 2)]"
    unfolding g by (rule line_bridge_pairs)
  have wi: "write_inverse (replicate (length [0..<num_nodes line_graph]) 0)
              (enumerate 0 [0..<num_nodes line_graph]) = Inr [0, 1, 2]"
    unfolding g using line_write_inverse by simp
  show ?thesis
    unfolding RoutingEnv_init_def Let_def option.case
    apply (simp only: bp wi)
    apply (simp add: g line_env_def circuit_to_dag_def line_circuit_def line_upt)
    done
qed

subsection \<open>An invalid BRIDGE action in the sequential variant\<close>

lemma update_state_settled:
  assumes "variant e = SequentialRoutingEnv" and "schedulable_gates e False = Inr []"
  shows "update_state e = Inr (e\<lparr>num_scheduled_2q_gates := 0, scheduling_reward := 0\<rparr>)"
  using assms by (simp add: update_state_def schedule_gates_def RoutingEnv_schedule_gates_def)

text \<open>
  Claim C4, amended. In the sequential variant, in a state that is not terminated, a BRIDGE
  action whose pair has no bridge candidate contributes reward zero, changes nothing and prints
  a diagnostic; the step then runs the scheduling commit as after every action, so the reward
  of the step is the scheduling reward of that commit and the state after the step is the
  state after the commit, with no SWAP blocked. When no gate is schedulable in the state, the
  reward is zero and the mapping arrays, the DAG, the routed-gates log and the set of routed
  operations are unchanged.
\<close>

theorem invalid_bridge_action_then_commit:
  assumes "variant e = SequentialRoutingEnv" and "\<not> terminated e"
    and "num_edges e \<le> action" and "action - num_edges e < length (bridge_pairs e)"
    and "bridge_args e (bridge_pairs e ! (action - num_edges e)) = Inr None"
  shows "sequential_action e action = Inr (e, 0, [''Invalid BRIDGE action was selected'']) \<and>
         step e action =
           (case update_state e of
              Inl err \<Rightarrow> Inl err
            | Inr e2 \<Rightarrow>
                Inr (scheduling_reward e2, terminated e2, False,
                     [''Invalid BRIDGE action was selected''], e2\<lparr>blocked_swap := None\<rparr>)) \<and>
         (schedulable_gates e False = Inr [] \<longrightarrow>
            step e action =
              Inr (0, False, False, [''Invalid BRIDGE action was selected''],
                   e\<lparr>num_scheduled_2q_gates := 0, scheduling_reward := 0, blocked_swap := None\<rparr>))"
proof -
  have act: "sequential_action e action = Inr (e, 0, [''Invalid BRIDGE action was selected''])"
    using assms(3,4,5) by (simp add: sequential_action_def)
  have st: "step e action =
           (case update_state e of
              Inl err \<Rightarrow> Inl err
            | Inr e2 \<Rightarrow>
                Inr (scheduling_reward e2, terminated e2, False,
                     [''Invalid BRIDGE action was selected''], e2\<lparr>blocked_swap := None\<rparr>))"
    using assms(1,2,3) act
    by (simp add: step_def SequentialRoutingEnv_step_def terminated_def split: sum.splits)
  have "step e action =
              Inr (0, False, False, [''Invalid BRIDGE action was selected''],
                   e\<lparr>num_scheduled_2q_gates := 0, scheduling_reward := 0, blocked_swap := None\<rparr>)"
    if "schedulable_gates e False = Inr []"
    unfolding st update_state_settled[OF assms(1) that] using assms(2)
    by (simp add: terminated_def)
  with act st show ?thesis by blast
qed

theorem invalid_bridge_action_then_commit_witness:
  "\<not> terminated (line_env SequentialRoutingEnv [cz 0 0 2]) \<and>
   bridge_args (line_env SequentialRoutingEnv [cz 0 0 2]) (0, 2) = Inr None \<and>
   schedulable_gates (line_env SequentialRoutingEnv [cz 0 0 2]) False = Inr [] \<and>
   step (line_env SequentialRoutingEnv [cz 0 0 2]) 2 =
     Inr (0, False, False, [''Invalid BRIDGE action was selected''],
          (line_env SequentialRoutingEnv [cz 0 0 2])
            \<lparr>num_scheduled_2q_gates := 0, scheduling_reward := 0, blocked_swap := None\<rparr>)"
proof -
  let ?e = "line_env SequentialRoutingEnv [cz 0 0 2]"
  have t: "\<not> terminated ?e" by code_simp
  have b: "bridge_args ?e (0, 2) = Inr None" by code_simp
  have s: "schedulable_gates ?e False = Inr []" by code_simp
  have h: "variant ?e = SequentialRoutingEnv" "\<not> terminated ?e" "num_edges ?e \<le> 2"
    "2 - num_edges ?e < length (bridge_pairs ?e)"
    "bridge_args ?e (bridge_pairs ?e ! (2 - num_edges ?e)) = Inr None"
    using t b by (simp_all add: line_env_def)
  from invalid_bridge_action_then_commit [OF h] s
  have "step ?e 2 =
     Inr (0, False, False, [''Invalid BRIDGE action was selected''],
          ?e\<lparr>num_scheduled_2q_gates := 0, scheduling_reward := 0, blocked_swap := None\<rparr>)"
    by blast
  then show ?thesis using t b s by simp
qed

text \<open>
  Claim C4 as stated fails in a state with a schedulable gate, such as the state the
  constructor builds for a circuit with one CX on adjacent nodes: the step with the BRIDGE
  action of the pair (0, 2), which has no candidate, commits the CX, returns reward 1 and
  empties the DAG.
\<close>

theorem invalid_bridge_step_commits_gate:
  "RoutingEnv_init SequentialRoutingEnv no_commutation_pass line_graph
     (Some (line_circuit [cx 0 0 1])) None True False None None =
     Inr (line_env SequentialRoutingEnv [cx 0 0 1]) \<and>
   \<not> terminated (line_env SequentialRoutingEnv [cx 0 0 1]) \<and>
   bridge_pairs (line_env SequentialRoutingEnv [cx 0 0 1]) !
     (2 - num_edges (line_env SequentialRoutingEnv [cx 0 0 1])) = (0, 2) \<and>
   bridge_args (line_env SequentialRoutingEnv [cx 0 0 1]) (0, 2) = Inr None \<and>
   dag (line_env SequentialRoutingEnv [cx 0 0 1]) = [cx 0 0 1] \<and>
   routed_gates (line_env SequentialRoutingEnv [cx 0 0 1]) = [] \<and>
   (case step (line_env SequentialRoutingEnv [cx 0 0 1]) 2 of
      Inl err \<Rightarrow> False
    | Inr (reward, term, trunc, printed, e1) \<Rightarrow>
        reward = 1 \<and> dag e1 = [] \<and> routed_gates e1 = [(CXGate, [0, 1])])"
proof -
  have "\<not> terminated (line_env SequentialRoutingEnv [cx 0 0 1]) \<and>
   bridge_pairs (line_env SequentialRoutingEnv [cx 0 0 1]) !
     (2 - num_edges (line_env SequentialRoutingEnv [cx 0 0 1])) = (0, 2) \<and>
   bridge_args (line_env SequentialRoutingEnv [cx 0 0 1]) (0, 2) = Inr None \<and>
   dag (line_env SequentialRoutingEnv [cx 0 0 1]) = [cx 0 0 1] \<and>
   routed_gates (line_env SequentialRoutingEnv [cx 0 0 1]) = [] \<and>
   (case step (line_env SequentialRoutingEnv [cx 0 0 1]) 2 of
      Inl err \<Rightarrow> False
    | Inr (reward, term, trunc, printed, e1) \<Rightarrow>
        reward = 1 \<and> dag e1 = [] \<and> routed_gates e1 = [(CXGate, [0, 1])])"
    by code_simp
  then show ?thesis using line_env_constructed by blast
qed

subsection \<open>The mapping invariant over reachable states\<close>

lemma same_mapping_refl: "same_mapping e e"
  by (simp add: same_mapping_def)

lemma same_mapping_trans: "same_mapping e e1 \<Longrightarrow> same_mapping e1 e2 \<Longrightarrow> same_mapping e e2"
  by (simp add: same_mapping_def)

lemma schedule_loop_same_mapping: "same_mapping e (schedule_loop e gates)"
proof (induction gates arbitrary: e)
  case Nil
  show ?case by (simp add: same_mapping_def)
next
  case (Cons g gates)
  have "same_mapping e (remove_op_node_env
          (e\<lparr>routed_gates :=
               routed_gates e @ [(op (fst g), indices_to_qubits (circuit e) (snd g))]\<rparr>) (fst g))"
    by (simp add: same_mapping_def remove_op_node_env_def)
  then show ?case using Cons.IH same_mapping_trans by simp
qed

lemma schedule_gates_same_mapping:
  "schedule_gates e gates = Inr e1 \<Longrightarrow> same_mapping e e1"
  using schedule_loop_same_mapping[of e gates]
  by (auto simp: schedule_gates_def RoutingEnv_schedule_gates_def
      LayeredRoutingEnv_schedule_gates_def same_mapping_def Let_def
      split: variant.splits sum.splits)

lemma update_state_same_mapping:
  assumes "update_state e = Inr e1"
  shows "same_mapping e e1"
proof (cases "variant e")
  case SequentialRoutingEnv
  with assms obtain gates where "schedule_gates e gates = Inr e1"
    by (auto simp: update_state_def split: sum.splits)
  then show ?thesis by (rule schedule_gates_same_mapping)
next
  case LayeredRoutingEnv
  let ?e = "e\<lparr>scheduling_map := sm_decrement (scheduling_map e)\<rparr>"
  from LayeredRoutingEnv assms obtain gates where "schedule_gates ?e gates = Inr e1"
    by (auto simp: update_state_def Let_def split: sum.splits)
  then have "same_mapping ?e e1" by (rule schedule_gates_same_mapping)
  then show ?thesis by (simp add: same_mapping_def)
qed

lemma bridge_same_mapping: "same_mapping e (bridge e control middle target)"
  by (cases "variant e") (simp_all add: bridge_def RoutingEnv_bridge_def same_mapping_def)

lemma remove_op_node_env_same_mapping: "same_mapping e (remove_op_node_env e x)"
  by (simp add: remove_op_node_env_def same_mapping_def)

lemma RoutingEnv_swap_success:
  "RoutingEnv_swap e edge = Inr e1 \<Longrightarrow> swapped_mapping e edge e1"
  by (auto simp: RoutingEnv_swap_def Let_def np_get_def np_set_def swapped_mapping_def
      split: if_splits)

lemma swap_success: "swap e edge = Inr e1 \<Longrightarrow> swapped_mapping e edge e1"
proof (cases "variant e")
  case SequentialRoutingEnv
  assume "swap e edge = Inr e1"
  with SequentialRoutingEnv show ?thesis by (simp add: swap_def RoutingEnv_swap_success)
next
  case LayeredRoutingEnv
  assume "swap e edge = Inr e1"
  with LayeredRoutingEnv obtain e2 where e2: "RoutingEnv_swap e edge = Inr e2"
    and e1: "e1 = e2\<lparr>scheduling_map := sm_update_all [fst edge, snd edge] (scheduling_map e2)\<rparr>"
    by (auto simp: swap_def split: sum.splits)
  from RoutingEnv_swap_success[OF e2] show ?thesis by (simp add: e1 swapped_mapping_def)
qed

lemma swapped_mapping_same:
  "swapped_mapping e edge e1 \<Longrightarrow> same_mapping e1 e2 \<Longrightarrow> swapped_mapping e edge e2"
  by (simp add: swapped_mapping_def same_mapping_def)

lemma sequential_action_effect:
  assumes "sequential_action e action = Inr (e1, reward, printed)"
  shows "same_mapping e e1 \<or>
         (action < num_edges e \<and> action < length (edge_list e) \<and>
          swapped_mapping e (edge_list e ! action) e1)"
proof (cases "action < num_edges e")
  case True
  with assms have len: "action < length (edge_list e)"
    by (auto simp: sequential_action_def split: if_splits)
  with True assms obtain e2 where "swap e (edge_list e ! action) = Inr e2" and "e1 = e2"
    by (auto simp: sequential_action_def Let_def split: sum.splits)
  then show ?thesis using True len swap_success by blast
next
  case False
  with assms have idx: "action - num_edges e < length (bridge_pairs e)"
    by (auto simp: sequential_action_def split: if_splits)
  let ?r = "bridge_args e (bridge_pairs e ! (action - num_edges e))"
  show ?thesis
  proof (cases ?r)
    case (Inl err)
    with assms False idx show ?thesis by (simp add: sequential_action_def)
  next
    case (Inr res)
    show ?thesis
    proof (cases res)
      case None
      with assms False idx Inr have "e1 = e" by (simp add: sequential_action_def)
      then show ?thesis by (simp add: same_mapping_refl)
    next
      case (Some args)
      with assms False idx Inr obtain c m t where
        "e1 = bridge (remove_op_node_env e (fst args)) c m t"
        by (auto simp: sequential_action_def Let_def split: list.splits sum.splits)
      then show ?thesis
        using bridge_same_mapping remove_op_node_env_same_mapping same_mapping_trans by blast
    qed
  qed
qed

lemma SequentialRoutingEnv_step_effect:
  assumes "SequentialRoutingEnv_step e action = Inr (reward, fin, trunc, printed, e1)"
  shows "same_mapping e e1 \<or>
         (action < num_edges e \<and> action < length (edge_list e) \<and>
          swapped_mapping e (edge_list e ! action) e1)"
proof (cases "terminated e")
  case True
  with assms have "e1 = e" by (simp add: SequentialRoutingEnv_step_def)
  then show ?thesis by (simp add: same_mapping_refl)
next
  case False
  with assms obtain ea rw pr e2 where act: "sequential_action e action = Inr (ea, rw, pr)"
    and upd: "update_state ea = Inr e2"
    and e1: "e1 = e2\<lparr>blocked_swap := (if action < num_edges e \<and> num_scheduled_2q_gates e2 = 0
                                        then Some action else None)\<rparr>"
    by (auto simp: SequentialRoutingEnv_step_def Let_def split: sum.splits)
  have s: "same_mapping ea e1"
    using update_state_same_mapping[OF upd] by (simp add: e1 same_mapping_def)
  from sequential_action_effect[OF act] show ?thesis
    using s same_mapping_trans swapped_mapping_same by blast
qed

lemma LayeredRoutingEnv_step_effect:
  assumes "LayeredRoutingEnv_step e action = Inr (reward, fin, trunc, printed, e1)"
  shows "same_mapping e e1 \<or>
         (action < num_edges e \<and> action < length (edge_list e) \<and>
          swapped_mapping e (edge_list e ! action) e1)"
proof -
  consider "action < num_edges e"
    | "\<not> action < num_edges e" "action < num_edges e + length (bridge_pairs e)"
    | "\<not> action < num_edges e" "\<not> action < num_edges e + length (bridge_pairs e)"
    by blast
  then show ?thesis
  proof cases
    case 1
    with assms have len: "action < length (edge_list e)"
      by (auto simp: LayeredRoutingEnv_step_def split: if_splits)
    with 1 assms have "swap e (edge_list e ! action) = Inr e1"
      by (auto simp: LayeredRoutingEnv_step_def Let_def split: sum.splits)
    then show ?thesis using 1 len swap_success by blast
  next
    case 2
    with assms obtain args :: "op_node \<times> nat list" and c m t where
      "e1 = bridge (remove_op_node_env e (fst args)) c m t"
      by (auto simp: LayeredRoutingEnv_step_def Let_def
          split: list.splits sum.splits option.splits)
    then show ?thesis
      using bridge_same_mapping remove_op_node_env_same_mapping same_mapping_trans by blast
  next
    case 3
    with assms have "update_state e = Inr e1"
      by (auto simp: LayeredRoutingEnv_step_def split: sum.splits)
    then show ?thesis using update_state_same_mapping by blast
  qed
qed

lemma step_effect:
  assumes "step e action = Inr (reward, fin, trunc, printed, e1)"
  shows "same_mapping e e1 \<or>
         (action < num_edges e \<and> action < length (edge_list e) \<and>
          swapped_mapping e (edge_list e ! action) e1)"
  using assms SequentialRoutingEnv_step_effect LayeredRoutingEnv_step_effect
  by (cases "variant e") (simp_all add: step_def)

lemma write_inverse_spec:
  assumes "distinct xs" and "set xs \<subseteq> {..<length q2n}"
  shows "\<exists>r. write_inverse q2n (enumerate k xs) = Inr r \<and> length r = length q2n \<and>
           (\<forall>i < length xs. r ! (xs ! i) = k + i) \<and>
           (\<forall>q < length q2n. q \<notin> set xs \<longrightarrow> r ! q = q2n ! q)"
  using assms
proof (induction xs arbitrary: q2n k)
  case Nil
  then show ?case by simp
next
  case (Cons x xs)
  from Cons.prems have x: "x < length q2n" and xn: "x \<notin> set xs" and d: "distinct xs"
    and sub: "set xs \<subseteq> {..<length (q2n[x := k])}"
    by auto
  from Cons.IH[OF d sub, of "Suc k"] obtain r where
    r: "write_inverse (q2n[x := k]) (enumerate (Suc k) xs) = Inr r"
    and len: "length r = length q2n"
    and hit: "\<forall>i < length xs. r ! (xs ! i) = Suc k + i"
    and miss: "\<forall>q < length q2n. q \<notin> set xs \<longrightarrow> r ! q = q2n[x := k] ! q"
    by auto
  have w: "write_inverse q2n (enumerate k (x # xs)) = Inr r"
    using x r by (simp add: np_set_def)
  have rx: "r ! x = k" using miss x xn by simp
  have hit2: "\<forall>i < length (x # xs). r ! ((x # xs) ! i) = k + i"
  proof (intro allI impI)
    fix i assume "i < length (x # xs)"
    then show "r ! ((x # xs) ! i) = k + i"
      using rx hit by (cases i) simp_all
  qed
  have miss2: "\<forall>q < length q2n. q \<notin> set (x # xs) \<longrightarrow> r ! q = q2n ! q"
    using miss by auto
  show ?case using w len hit2 miss2 by blast
qed

lemma permutation_mapping_set:
  assumes "permutation_mapping m"
  shows "set m = {..<length m}"
proof -
  from assms have d: "distinct m" and sub: "set m \<subseteq> {..<length m}"
    by (auto simp: permutation_mapping_def list_all_iff)
  have "card (set m) = length m" using d by (simp add: distinct_card)
  then show ?thesis using sub by (simp add: card_subset_eq)
qed

lemma write_inverse_permutation:
  assumes "permutation_mapping m" and "length q2n = length m"
  shows "\<exists>r. write_inverse q2n (enumerate 0 m) = Inr r \<and> mutual_inverses m r"
proof -
  from assms(1) have d: "distinct m" by (simp add: permutation_mapping_def)
  have st: "set m = {..<length m}" by (rule permutation_mapping_set[OF assms(1)])
  then have sub: "set m \<subseteq> {..<length q2n}" by (simp add: assms(2))
  from write_inverse_spec[OF d sub, of 0] obtain r where
    r: "write_inverse q2n (enumerate 0 m) = Inr r" and len: "length r = length m"
    and hit: "\<And>i. i < length m \<Longrightarrow> r ! (m ! i) = i"
    by (auto simp: assms(2))
  have fw: "m ! n < length r \<and> r ! (m ! n) = n" if "n < length m" for n
  proof -
    from that have "m ! n \<in> set m" by simp
    then show ?thesis using st len hit[OF that] by simp
  qed
  have bw: "r ! q < length m \<and> m ! (r ! q) = q" if "q < length r" for q
  proof -
    from that have "q \<in> set m" using st len by simp
    then obtain i where i: "i < length m" "m ! i = q" by (auto simp: in_set_conv_nth)
    then show ?thesis using hit[OF i(1)] by simp
  qed
  have "mutual_inverses m r"
    unfolding mutual_inverses_iff using len fw bw by simp
  with r show ?thesis by blast
qed

lemma same_mapping_invariant:
  "same_mapping e e1 \<Longrightarrow> mapping_invariant e \<Longrightarrow> mapping_invariant e1"
  by (simp add: same_mapping_def mapping_invariant_def)

lemma swapped_mapping_invariant:
  assumes "swapped_mapping e edge e1" and "mapping_invariant e"
  shows "mapping_invariant e1"
proof -
  from assms(2) have mi: "mutual_inverses (node_to_qubit e) (qubit_to_node e)"
    by (simp add: mapping_invariant_def)
  from assms(1) have a: "fst edge < length (node_to_qubit e)"
    and b: "snd edge < length (node_to_qubit e)"
    by (simp_all add: swapped_mapping_def)
  show ?thesis
    using swap_lists_inverse[OF mi a b] assms
    by (simp add: swapped_mapping_def mapping_invariant_def)
qed

lemma calibrate_same_mapping: "calibrate e rates = Inr e1 \<Longrightarrow> same_mapping e e1"
  by (auto simp: calibrate_def Let_def same_mapping_def split: option.splits)

lemma upt_permutation: "permutation_mapping [0..<n]"
  by (simp add: permutation_mapping_def list_all_iff)

lemma init_mapping_invariant:
  assumes "RoutingEnv_init v cpass g circ im ab ca er nc = Inr e0"
    and "case im of None \<Rightarrow> True | Some m \<Rightarrow> permutation_mapping m"
  shows "mapping_invariant e0 \<and> length (node_to_qubit e0) = num_nodes g"
proof -
  define m where "m = (case im of None \<Rightarrow> [0..<num_nodes g] | Some m \<Rightarrow> m)"
  have pm: "permutation_mapping m"
    using assms(2) upt_permutation by (simp add: m_def split: option.splits)
  from assms(1) have lm: "length m = num_nodes g"
    by (auto simp: RoutingEnv_init_def Let_def m_def split: if_splits)
  from write_inverse_permutation[OF pm, of "replicate (length m) 0"] obtain r where
    r: "write_inverse (replicate (length m) 0) (enumerate 0 m) = Inr r"
    and mi: "mutual_inverses m r"
    by auto
  from assms(1) r lm have e: "node_to_qubit e0 = m \<and> qubit_to_node e0 = r \<and> initial_mapping e0 = m"
    by (auto simp: RoutingEnv_init_def Let_def m_def[symmetric] calibrate_def
        split: if_splits option.splits)
  then show ?thesis using mi pm lm by (simp add: mapping_invariant_def)
qed

lemma reset_mapping_invariant:
  assumes "reset e = Inr e1" and "mapping_invariant e"
  shows "mapping_invariant e1 \<and> length (node_to_qubit e1) = length (node_to_qubit e)"
proof -
  from assms(1) obtain e2 where rs: "reset_state e2 = Inr e1"
    and i2: "initial_mapping e2 = initial_mapping e" "qubit_to_node e2 = qubit_to_node e"
    by (auto simp: reset_def Let_def split: if_splits)
  from assms(2) have pm: "permutation_mapping (initial_mapping e)"
    and len: "length (qubit_to_node e) = length (initial_mapping e)"
    by (auto simp: mapping_invariant_def mutual_inverses_iff)
  from write_inverse_permutation[OF pm len] obtain r where
    r: "write_inverse (qubit_to_node e) (enumerate 0 (initial_mapping e)) = Inr r"
    and mi: "mutual_inverses (initial_mapping e) r"
    by auto
  from rs r i2 obtain e3 where e3: "update_state e3 = Inr e1" "node_to_qubit e3 = initial_mapping e"
    "qubit_to_node e3 = r" "initial_mapping e3 = initial_mapping e"
    by (auto simp: reset_state_def Let_def split: variant.splits)
  have "mapping_invariant e3" using e3 mi pm by (simp add: mapping_invariant_def)
  with update_state_same_mapping[OF e3(1)] show ?thesis
    using same_mapping_invariant assms(2) e3
    by (auto simp: same_mapping_def mapping_invariant_def)
qed

lemma reachable_mapping_invariant:
  assumes "reachable e0 e" and "mapping_invariant e0"
  shows "mapping_invariant e \<and> length (node_to_qubit e) = length (node_to_qubit e0)"
  using assms
proof (induction rule: reachable.induct)
  case constructed
  then show ?case by simp
next
  case (after_reset e e1)
  then show ?case using reset_mapping_invariant by auto
next
  case (after_step e action reward fin trunc printed e1)
  then have inv: "mapping_invariant e" and len: "length (node_to_qubit e) = length (node_to_qubit e0)"
    by simp_all
  from step_effect[OF after_step.hyps(2)] show ?case
  proof
    assume sm: "same_mapping e e1"
    have "mapping_invariant e1" by (rule same_mapping_invariant[OF sm inv])
    moreover have "length (node_to_qubit e1) = length (node_to_qubit e)"
      using sm by (simp add: same_mapping_def)
    ultimately show ?thesis using len by simp
  next
    assume "action < num_edges e \<and> action < length (edge_list e) \<and>
            swapped_mapping e (edge_list e ! action) e1"
    then have sw: "swapped_mapping e (edge_list e ! action) e1" by blast
    have "mapping_invariant e1" by (rule swapped_mapping_invariant[OF sw inv])
    moreover have "length (node_to_qubit e1) = length (node_to_qubit e)"
      using sw by (simp add: swapped_mapping_def)
    ultimately show ?thesis using len by simp
  qed
qed

text \<open>
  Claim C1, amended. When the initial mapping is a permutation of the node indices (the
  constructor checks its length only), in every state reachable from the constructed
  environment by resets and steps the two mapping arrays are exact mutual inverses, so that
  \<open>qubit_to_node[node_to_qubit[n]] = n\<close> for every node. A step either leaves both arrays as
  they are or is a SWAP action and exchanges two entries; a SWAP exchanges two entries, and
  a BRIDGE, a batch of committed gates and a whole commit leave both arrays unchanged.
\<close>

theorem mapping_arrays_stay_mutual_inverses:
  assumes "RoutingEnv_init v cpass g circ im ab ca er nc = Inr e0"
    and "case im of None \<Rightarrow> True | Some m \<Rightarrow> permutation_mapping m"
    and "reachable e0 e"
  shows "mutual_inverses (node_to_qubit e) (qubit_to_node e) \<and>
         length (node_to_qubit e) = num_nodes g \<and>
         (\<forall>n < num_nodes g. qubit_to_node e ! (node_to_qubit e ! n) = n) \<and>
         (\<forall>action reward fin trunc printed e1.
            step e action = Inr (reward, fin, trunc, printed, e1) \<longrightarrow>
              node_to_qubit e1 = node_to_qubit e \<and> qubit_to_node e1 = qubit_to_node e \<or>
              action < num_edges e \<and> swapped_mapping e (edge_list e ! action) e1) \<and>
         (\<forall>edge e1. swap e edge = Inr e1 \<longrightarrow> swapped_mapping e edge e1) \<and>
         (\<forall>control middle target. same_mapping e (bridge e control middle target)) \<and>
         (\<forall>gates e1. schedule_gates e gates = Inr e1 \<longrightarrow> same_mapping e e1) \<and>
         (\<forall>e1. update_state e = Inr e1 \<longrightarrow> same_mapping e e1)"
proof -
  from init_mapping_invariant[OF assms(1,2)]
  have inv0: "mapping_invariant e0" and len0: "length (node_to_qubit e0) = num_nodes g"
    by simp_all
  from reachable_mapping_invariant[OF assms(3) inv0]
  have inv: "mapping_invariant e" and len: "length (node_to_qubit e) = num_nodes g"
    using len0 by simp_all
  from inv have mi: "mutual_inverses (node_to_qubit e) (qubit_to_node e)"
    by (simp add: mapping_invariant_def)
  have pt: "\<forall>n < num_nodes g. qubit_to_node e ! (node_to_qubit e ! n) = n"
    using mi len unfolding mutual_inverses_iff by simp
  have st: "\<forall>action reward fin trunc printed e1.
            step e action = Inr (reward, fin, trunc, printed, e1) \<longrightarrow>
              node_to_qubit e1 = node_to_qubit e \<and> qubit_to_node e1 = qubit_to_node e \<or>
              action < num_edges e \<and> swapped_mapping e (edge_list e ! action) e1"
    using step_effect by (fastforce simp: same_mapping_def)
  show ?thesis
    using mi len pt st swap_success bridge_same_mapping schedule_gates_same_mapping
      update_state_same_mapping
    by blast
qed

theorem mapping_arrays_stay_mutual_inverses_witness:
  "\<exists>e1. reachable (line_env SequentialRoutingEnv [cx 0 0 2]) e1 \<and>
     node_to_qubit e1 = [0, 2, 1] \<and> qubit_to_node e1 = [0, 2, 1] \<and>
     mutual_inverses (node_to_qubit e1) (qubit_to_node e1) \<and>
     (\<forall>n < 3. qubit_to_node e1 ! (node_to_qubit e1 ! n) = n)"
proof -
  let ?e0 = "line_env SequentialRoutingEnv [cx 0 0 2]"
  have "case step ?e0 1 of
          Inl err \<Rightarrow> False
        | Inr (reward, fin, trunc, printed, e1) \<Rightarrow>
            node_to_qubit e1 = [0, 2, 1] \<and> qubit_to_node e1 = [0, 2, 1]"
    by code_simp
  then obtain reward fin trunc printed e1 where
    s: "step ?e0 1 = Inr (reward, fin, trunc, printed, e1)"
    and a: "node_to_qubit e1 = [0, 2, 1]" "qubit_to_node e1 = [0, 2, 1]"
    by (auto split: sum.splits)
  have r: "reachable ?e0 e1"
    by (rule reachable.after_step[OF reachable.constructed s])
  have p: "case None :: nat list option of None \<Rightarrow> True | Some m \<Rightarrow> permutation_mapping m"
    by simp
  have n: "num_nodes line_graph = 3" by (simp add: line_graph_def)
  from mapping_arrays_stay_mutual_inverses [OF line_env_constructed p r]
  have "mutual_inverses (node_to_qubit e1) (qubit_to_node e1) \<and>
        (\<forall>n < 3. qubit_to_node e1 ! (node_to_qubit e1 ! n) = n)"
    unfolding n by blast
  with r a show ?thesis by blast
qed

text \<open>
  Claim C1 as stated fails: the constructor accepts an initial mapping of the right length
  that holds a qubit twice, and the arrays of the environment it builds are not inverses.
\<close>

theorem repeated_initial_mapping_breaks_inverse:
  "case RoutingEnv_init SequentialRoutingEnv no_commutation_pass line_graph
          (Some (line_circuit [])) (Some [0, 0, 1]) True False None None of
     Inl err \<Rightarrow> False
   | Inr e \<Rightarrow>
       node_to_qubit e = [0, 0, 1] \<and> qubit_to_node e = [1, 2, 0] \<and>
       qubit_to_node e ! (node_to_qubit e ! 0) \<noteq> 0 \<and>
       \<not> mutual_inverses (node_to_qubit e) (qubit_to_node e)"
  by code_simp

subsection \<open>The scheduling pass\<close>

lemma schedulable_loop_single:
  assumes "nodes_of e x = Inr nodes"
  shows "schedulable_loop e [x] (gates, locked) =
           (if is_schedulable e nodes locked then Inr (oset_add (x, nodes) gates, locked)
            else (case (if commutation_analysis e
                        then free_qargs_loop e x (filter (\<lambda>q. q \<notin> locked) (qargs x)) locked gates
                        else Inr gates) of
                    Inl err \<Rightarrow> Inl err
                  | Inr gates1 \<Rightarrow> Inr (gates1, locked \<union> set nodes)))"
  using assms by (simp add: nodes_of_def split: sum.splits)

lemma schedulable_loop_stopped:
  assumes "schedulable_loop e xs st = Inr st1" and "xs \<noteq> []"
    and "card (snd st1) \<noteq> num_qubits e"
  shows "schedulable_loop e (xs @ ys) st = schedulable_loop e ys st1"
  using assms
proof (induction xs arbitrary: st)
  case Nil
  then show ?case by simp
next
  case (Cons x xs)
  obtain gates locked where st: "st = (gates, locked)" by (cases st)
  show ?case
  proof (cases "nodes_of e x")
    case (Inl err)
    with Cons.prems(1) show ?thesis by (simp add: st nodes_of_def)
  next
    case (Inr nodes)
    let ?step = "(if is_schedulable e nodes locked then Inr (oset_add (x, nodes) gates, locked)
            else (case (if commutation_analysis e
                        then free_qargs_loop e x (filter (\<lambda>q. q \<notin> locked) (qargs x)) locked gates
                        else Inr gates) of
                    Inl err \<Rightarrow> Inl err
                  | Inr gates1 \<Rightarrow> Inr (gates1, locked \<union> set nodes)))"
    have unfold: "\<And>zs. schedulable_loop e (x # zs) (gates, locked) =
        (case ?step of Inl err \<Rightarrow> Inl err
         | Inr s \<Rightarrow> if card (snd s) = num_qubits e then Inr s else schedulable_loop e zs s)"
      using Inr by (simp add: nodes_of_def)
    show ?thesis
    proof (cases ?step)
      case (Inl err)
      with Cons.prems(1) show ?thesis unfolding st unfold by simp
    next
      case s: (Inr s)
      show ?thesis
      proof (cases "card (snd s) = num_qubits e")
        case True
        with Cons.prems(1,3) s show ?thesis unfolding st unfold by simp
      next
        case False
        with Cons.prems(1) s have rest: "schedulable_loop e xs s = Inr st1"
          unfolding st unfold by simp
        have "schedulable_loop e (xs @ ys) s = schedulable_loop e ys st1"
        proof (cases "xs = []")
          case True
          with rest show ?thesis by simp
        next
          case False
          from Cons.IH[OF rest False Cons.prems(3)] show ?thesis .
        qed
        then show ?thesis using s False unfolding st append_Cons unfold by simp
      qed
    qed
  qed
qed

lemma schedulable_loop_snoc:
  assumes "schedulable_loop e pre ([], {}) = Inr (gates, locked)"
    and "card locked \<noteq> num_qubits e"
  shows "schedulable_loop e (pre @ [x]) ([], {}) = schedulable_loop e [x] (gates, locked)"
proof (cases "pre = []")
  case True
  with assms(1) show ?thesis by simp
next
  case False
  from schedulable_loop_stopped[OF assms(1) False] assms(2) show ?thesis by simp
qed

text \<open>
  Claim C2 as stated fails: two CX gates on the same two adjacent nodes are both scheduled in
  one pass, and no node is locked at its end.
\<close>

theorem scheduled_operation_claims_no_node:
  "schedulable_loop (line_env SequentialRoutingEnv [cx 0 0 1, cx 1 0 1])
     [cx 0 0 1, cx 1 0 1] ([], {}) =
     Inr ([(cx 0 0 1, [0, 1]), (cx 1 0 1, [0, 1])], {}) \<and>
   schedulable_gates (line_env SequentialRoutingEnv [cx 0 0 1, cx 1 0 1]) False =
     Inr [(cx 0 0 1, [0, 1]), (cx 1 0 1, [0, 1])] \<and>
   cx 0 0 1 \<noteq> cx 1 0 1"
  by code_simp

subsection \<open>Copies of an environment\<close>

text \<open>
  Claim C3. \<open>copy\<close> does not copy the set of routed operations: the copy holds the reference
  of the original. On the line, with one CX between the nodes 0 and 2, the copy takes the SWAP
  on the edge (1, 2) and commits the CX; the operation then is in the set of routed operations
  of the original too, whose DAG still holds it.
\<close>

theorem copy_shares_routed_op_nodes:
  "case new_obj [] (line_env SequentialRoutingEnv [cx 0 0 2]) of
     (h0, original) \<Rightarrow>
       (case copy h0 original of
          None \<Rightarrow> False
        | Some (h1, duplicate) \<Rightarrow>
            (case step_obj h1 duplicate 1 of
               Some (Inr (reward, fin, trunc, printed, h2, duplicate1)) \<Rightarrow>
                 routed_op_nodes_ref duplicate = routed_op_nodes_ref original \<and>
                 map_option routed_op_nodes (load h1 original) = Some {} \<and>
                 map_option routed_op_nodes (load h2 original) = Some {0} \<and>
                 map_option dag (load h2 original) = Some [cx 0 0 2] \<and>
                 map_option dag (load h2 duplicate1) = Some []
             | _ \<Rightarrow> False))"
  by code_simp

text \<open>
  The collections that \<open>copy\<close> does replace are out of reach of a step of the copy: the two
  mapping arrays, the DAG and the routed-gates list of the original, and in the layered
  variant its scheduling-lock map, are after the step what they were before the copy.
\<close>

lemma deref_append: "r < length h \<Longrightarrow> deref (h @ xs) r = deref h r"
  by (simp add: deref_def nth_append)

lemma deref_update_other: "r \<noteq> r1 \<Longrightarrow> deref (h[r1 := c]) r = deref h r"
  by (simp add: deref_def)

lemma deref_cases:
  "deref h r = Some c \<Longrightarrow> r < length h \<and> h ! r = c"
  by (simp add: deref_def split: if_splits)

lemma load_SomeD:
  assumes "load h ob = Some e"
  shows "deref h (node_to_qubit_ref ob) = Some (Array (node_to_qubit e)) \<and>
         deref h (qubit_to_node_ref ob) = Some (Array (qubit_to_node e)) \<and>
         deref h (dag_ref ob) = Some (DagCell (dag e)) \<and>
         deref h (routed_gates_ref ob) = Some (GateLog (routed_gates e)) \<and>
         deref h (routed_op_nodes_ref ob) = Some (NodeSet (routed_op_nodes e)) \<and>
         deref h (scheduling_map_ref ob) = Some (LockMap (scheduling_map e)) \<and>
         variant e = variant ob"
  using assms
  by (auto simp: load_def env_attrs.defs env.defs split: option.splits cell.splits)

lemma copy_keeps_private_collections:
  assumes ld: "load h original = Some e"
    and cp: "copy h original = Some (h1, duplicate)"
    and st: "step_obj h1 duplicate action = Some (Inr (reward, fin, trunc, printed, h2, duplicate1))"
  shows "deref h2 (node_to_qubit_ref original) = Some (Array (node_to_qubit e)) \<and>
         deref h2 (qubit_to_node_ref original) = Some (Array (qubit_to_node e)) \<and>
         deref h2 (dag_ref original) = Some (DagCell (dag e)) \<and>
         deref h2 (routed_gates_ref original) = Some (GateLog (routed_gates e)) \<and>
         (variant original = LayeredRoutingEnv \<longrightarrow>
            deref h2 (scheduling_map_ref original) = Some (LockMap (scheduling_map e)))"
proof -
  note d = load_SomeD[OF ld]
  let ?n = "length h"
  have lt: "node_to_qubit_ref original < ?n" "qubit_to_node_ref original < ?n"
    "dag_ref original < ?n" "routed_gates_ref original < ?n"
    "routed_op_nodes_ref original < ?n" "scheduling_map_ref original < ?n"
    using d by (auto dest: deref_cases)
  have ne: "node_to_qubit_ref original \<noteq> routed_op_nodes_ref original"
    "qubit_to_node_ref original \<noteq> routed_op_nodes_ref original"
    "dag_ref original \<noteq> routed_op_nodes_ref original"
    "routed_gates_ref original \<noteq> routed_op_nodes_ref original"
    "node_to_qubit_ref original \<noteq> scheduling_map_ref original"
    "qubit_to_node_ref original \<noteq> scheduling_map_ref original"
    "dag_ref original \<noteq> scheduling_map_ref original"
    "routed_gates_ref original \<noteq> scheduling_map_ref original"
    "scheduling_map_ref original \<noteq> routed_op_nodes_ref original"
    using d by auto
  define hb where "hb = h @ [Array (node_to_qubit e), Array (qubit_to_node e), DagCell (dag e),
                 GateLog (routed_gates e)]"
  define ob1 where "ob1 = original\<lparr>node_to_qubit_ref := ?n, qubit_to_node_ref := ?n + 1,
                       dag_ref := ?n + 2, routed_gates_ref := ?n + 3\<rparr>"
  have base: "RoutingEnv_copy h original = Some (hb, ob1)"
    using ld by (simp add: RoutingEnv_copy_def alloc_def Let_def hb_def ob1_def)
  from st have "\<exists>e1. h2 = fst (store h1 duplicate e1)"
    by (auto simp: step_obj_def split: option.splits sum.splits) (metis fst_conv)
  then obtain e1 where h2: "h2 = fst (store h1 duplicate e1)" by blast
  show ?thesis
  proof (cases "variant original")
    case SequentialRoutingEnv
    with cp base have h1: "h1 = hb" and du: "duplicate = ob1"
      by (simp_all add: copy_def)
    show ?thesis
      using d lt ne SequentialRoutingEnv
      unfolding h2 store_def h1 du hb_def ob1_def
      by (simp add: deref_update_other deref_append)
  next
    case LayeredRoutingEnv
    have "load hb ob1 \<noteq> None"
      using d lt unfolding hb_def ob1_def
      by (simp add: load_def deref_append) (simp add: deref_def nth_append)
    then obtain e' where e': "load hb ob1 = Some e'" by blast
    have "copy h original =
            Some (hb @ [LockMap (scheduling_map e')], ob1\<lparr>scheduling_map_ref := length hb\<rparr>)"
      using LayeredRoutingEnv base e'
      by (simp add: copy_def LayeredRoutingEnv_copy_def alloc_def Let_def)
    with cp have h1: "h1 = hb @ [LockMap (scheduling_map e')]"
      and du: "duplicate = ob1\<lparr>scheduling_map_ref := length hb\<rparr>"
      by simp_all
    show ?thesis
      using d lt ne
      unfolding h2 store_def h1 du hb_def ob1_def
      by (simp add: deref_update_other deref_append)
  qed
qed

subsection \<open>Two SWAP steps in a row\<close>

text \<open>
  At the level of steps: a step with a SWAP action applies the SWAP unless the environment is
  a terminated sequential one, so two such steps in a row give the mapping arrays back when
  the first does not end the episode.
\<close>

lemma step_swap_effect:
  assumes st: "step e action = Inr (reward, fin, trunc, printed, e1)"
    and a: "action < num_edges e"
    and nt: "variant e = SequentialRoutingEnv \<longrightarrow> \<not> terminated e"
  shows "swapped_mapping e (edge_list e ! action) e1"
proof (cases "variant e")
  case SequentialRoutingEnv
  with st nt obtain ea rw pr e2 where act: "sequential_action e action = Inr (ea, rw, pr)"
    and upd: "update_state ea = Inr e2"
    and e1: "e1 = e2\<lparr>blocked_swap := (if action < num_edges e \<and> num_scheduled_2q_gates e2 = 0
                                        then Some action else None)\<rparr>"
    by (auto simp: step_def SequentialRoutingEnv_step_def Let_def split: sum.splits)
  from act a have "swap e (edge_list e ! action) = Inr ea"
    by (auto simp: sequential_action_def Let_def split: if_splits sum.splits)
  then have sw: "swapped_mapping e (edge_list e ! action) ea" by (rule swap_success)
  have "same_mapping ea e1"
    using update_state_same_mapping[OF upd] by (simp add: e1 same_mapping_def)
  with sw show ?thesis by (rule swapped_mapping_same)
next
  case LayeredRoutingEnv
  with st a have "swap e (edge_list e ! action) = Inr e1"
    by (auto simp: step_def LayeredRoutingEnv_step_def Let_def split: if_splits sum.splits)
  then show ?thesis by (rule swap_success)
qed

lemma swap_steps_restore_mapping:
  assumes mi: "mutual_inverses (node_to_qubit e) (qubit_to_node e)"
    and a: "action < num_edges e"
    and s1: "step e action = Inr (reward1, fin1, trunc1, printed1, e1)"
    and s2: "step e1 action = Inr (reward2, fin2, trunc2, printed2, e2)"
    and nt: "variant e = SequentialRoutingEnv \<longrightarrow> \<not> terminated e \<and> \<not> terminated e1"
  shows "node_to_qubit e2 = node_to_qubit e \<and> qubit_to_node e2 = qubit_to_node e"
proof -
  let ?edge = "edge_list e ! action"
  from nt have nt1: "variant e = SequentialRoutingEnv \<longrightarrow> \<not> terminated e" by blast
  have sw1: "swapped_mapping e ?edge e1" by (rule step_swap_effect[OF s1 a nt1])
  then have same: "variant e1 = variant e" "num_edges e1 = num_edges e" "edge_list e1 = edge_list e"
    by (simp_all add: swapped_mapping_def)
  have "swapped_mapping e1 (edge_list e1 ! action) e2"
    using step_swap_effect[OF s2] a nt same by simp
  then have sw2: "swapped_mapping e1 ?edge e2" by (simp add: same)
  from sw1 have r: "fst ?edge < length (node_to_qubit e)" "snd ?edge < length (node_to_qubit e)"
    by (simp_all add: swapped_mapping_def)
  from swap_lists_twice[OF mi r] sw1 sw2 show ?thesis
    by (simp add: swapped_mapping_def)
qed

subsection \<open>The SWAP action taken twice\<close>

lemma schedule_loop_appends:
  "noise_config (schedule_loop e gates) = noise_config e \<and>
   edge_to_log_reliability (schedule_loop e gates) = edge_to_log_reliability e \<and>
   (\<exists>gs. routed_gates (schedule_loop e gates) = routed_gates e @ gs)"
proof (induction gates arbitrary: e)
  case Nil
  show ?case by simp
next
  case (Cons g gates)
  let ?e1 = "remove_op_node_env
          (e\<lparr>routed_gates :=
               routed_gates e @ [(op (fst g), indices_to_qubits (circuit e) (snd g))]\<rparr>) (fst g)"
  have e1: "noise_config ?e1 = noise_config e"
    "edge_to_log_reliability ?e1 = edge_to_log_reliability e"
    "routed_gates ?e1 = routed_gates e @ [(op (fst g), indices_to_qubits (circuit e) (snd g))]"
    by (simp_all add: remove_op_node_env_def)
  from Cons.IH[of ?e1] obtain gs where
    "noise_config (schedule_loop ?e1 gates) = noise_config ?e1"
    "edge_to_log_reliability (schedule_loop ?e1 gates) = edge_to_log_reliability ?e1"
    "routed_gates (schedule_loop ?e1 gates) = routed_gates ?e1 @ gs"
    by blast
  then show ?case unfolding e1 by simp
qed

lemma schedule_gates_appends:
  assumes "schedule_gates e gates = Inr e1"
  shows "noise_config e1 = noise_config e \<and>
         edge_to_log_reliability e1 = edge_to_log_reliability e \<and>
         (\<exists>gs. routed_gates e1 = routed_gates e @ gs)"
  using assms schedule_loop_appends[of e gates]
  by (auto simp: schedule_gates_def RoutingEnv_schedule_gates_def
      LayeredRoutingEnv_schedule_gates_def Let_def split: variant.splits sum.splits)

lemma update_state_appends:
  assumes "update_state e = Inr e1"
  shows "noise_config e1 = noise_config e \<and>
         edge_to_log_reliability e1 = edge_to_log_reliability e \<and>
         (\<exists>gs. routed_gates e1 = routed_gates e @ gs)"
proof (cases "variant e")
  case SequentialRoutingEnv
  with assms obtain gates where "schedule_gates e gates = Inr e1"
    by (auto simp: update_state_def split: sum.splits)
  then show ?thesis by (rule schedule_gates_appends)
next
  case LayeredRoutingEnv
  let ?e = "e\<lparr>scheduling_map := sm_decrement (scheduling_map e)\<rparr>"
  from LayeredRoutingEnv assms obtain gates where "schedule_gates ?e gates = Inr e1"
    by (auto simp: update_state_def Let_def split: sum.splits)
  from schedule_gates_appends[OF this] show ?thesis by simp
qed

lemma swap_appends:
  assumes "swap e edge = Inr e1"
  shows "noise_config e1 = noise_config e \<and>
         edge_to_log_reliability e1 = edge_to_log_reliability e \<and>
         routed_gates e1 = routed_gates e @ [(SwapGate, [fst edge, snd edge])]"
  using assms
  by (auto simp: swap_def RoutingEnv_swap_def Let_def np_get_def np_set_def
      indices_to_qubits_def split: variant.splits if_splits sum.splits)

lemma swap_reward_frame:
  assumes n: "noise_config e1 = noise_config e"
    and l: "edge_to_log_reliability e1 = edge_to_log_reliability e"
  shows "swap_reward e1 edge = swap_reward e edge"
  by (simp only: swap_reward_def n l)

lemma step_swap_detail:
  assumes st: "step e action = Inr (reward, fin, trunc, printed, e1)"
    and a: "action < num_edges e"
    and nt: "variant e = SequentialRoutingEnv \<longrightarrow> \<not> terminated e"
  shows "noise_config e1 = noise_config e \<and>
         edge_to_log_reliability e1 = edge_to_log_reliability e \<and>
         (\<exists>gs. routed_gates e1 =
                routed_gates e @
                  (SwapGate, [fst (edge_list e ! action), snd (edge_list e ! action)]) # gs) \<and>
         (\<exists>r. swap_reward e (edge_list e ! action) = Inr r \<and>
              reward = r + (if variant e = SequentialRoutingEnv then scheduling_reward e1 else 0))"
proof (cases "variant e")
  case SequentialRoutingEnv
  with st nt obtain ea rw pr e2 where act: "sequential_action e action = Inr (ea, rw, pr)"
    and upd: "update_state ea = Inr e2"
    and e1: "e1 = e2\<lparr>blocked_swap := (if action < num_edges e \<and> num_scheduled_2q_gates e2 = 0
                                        then Some action else None)\<rparr>"
    and rw: "reward = rw + scheduling_reward e2"
    by (auto simp: step_def SequentialRoutingEnv_step_def Let_def split: sum.splits)
  from act a have sw: "swap e (edge_list e ! action) = Inr ea"
    and r: "swap_reward ea (edge_list e ! action) = Inr rw"
    by (auto simp: sequential_action_def Let_def split: if_splits sum.splits)
  note s = swap_appends[OF sw]
  note u = update_state_appends[OF upd]
  from u obtain gs where gs: "routed_gates e2 = routed_gates ea @ gs" by blast
  have "swap_reward e (edge_list e ! action) = Inr rw"
    using r swap_reward_frame[of ea e] s by simp
  then show ?thesis using s u gs rw SequentialRoutingEnv by (simp add: e1)
next
  case LayeredRoutingEnv
  with st a obtain rw where sw: "swap e (edge_list e ! action) = Inr e1"
    and r: "swap_reward e1 (edge_list e ! action) = Inr rw" and rw: "reward = rw"
    by (auto simp: step_def LayeredRoutingEnv_step_def Let_def split: if_splits sum.splits)
  note s = swap_appends[OF sw]
  have "swap_reward e (edge_list e ! action) = Inr rw"
    using r swap_reward_frame[of e1 e] s by simp
  then show ?thesis using s rw LayeredRoutingEnv by simp
qed

text \<open>
  Claim C7, amended. On a mapping whose arrays are mutual inverses, the same SWAP action
  taken in two steps in a row, where the first step does not end the episode of a sequential
  environment, gives back both mapping arrays as they were before the first SWAP. The log of
  routed gates receives the SWAP a second time, after what the first step added, so it
  differs from the log after one SWAP; and each of the two steps earns the SWAP reward of the
  edge, -3 without a noise configuration, next to the scheduling reward of its own commit.
\<close>

theorem swap_action_twice_restores_mapping:
  assumes mi: "mutual_inverses (node_to_qubit e) (qubit_to_node e)"
    and a: "action < num_edges e"
    and s1: "step e action = Inr (reward1, fin1, trunc1, printed1, e1)"
    and s2: "step e1 action = Inr (reward2, fin2, trunc2, printed2, e2)"
    and nt: "variant e = SequentialRoutingEnv \<longrightarrow> \<not> terminated e \<and> \<not> terminated e1"
  shows "node_to_qubit e2 = node_to_qubit e \<and> qubit_to_node e2 = qubit_to_node e \<and>
         (\<exists>gs1 gs2.
            routed_gates e1 =
              routed_gates e @
                (SwapGate, [fst (edge_list e ! action), snd (edge_list e ! action)]) # gs1 \<and>
            routed_gates e2 =
              routed_gates e1 @
                (SwapGate, [fst (edge_list e ! action), snd (edge_list e ! action)]) # gs2) \<and>
         routed_gates e2 \<noteq> routed_gates e1 \<and>
         (\<exists>r. swap_reward e (edge_list e ! action) = Inr r \<and>
              (noise_config e = None \<longrightarrow> r = - 3) \<and>
              reward1 = r + (if variant e = SequentialRoutingEnv then scheduling_reward e1 else 0) \<and>
              reward2 = r + (if variant e = SequentialRoutingEnv then scheduling_reward e2 else 0))"
proof -
  let ?edge = "edge_list e ! action"
  from nt have nt1: "variant e = SequentialRoutingEnv \<longrightarrow> \<not> terminated e" by blast
  have sw1: "swapped_mapping e ?edge e1" by (rule step_swap_effect[OF s1 a nt1])
  then have same: "variant e1 = variant e" "num_edges e1 = num_edges e" "edge_list e1 = edge_list e"
    by (simp_all add: swapped_mapping_def)
  have a1: "action < num_edges e1" using a same by simp
  have nt2: "variant e1 = SequentialRoutingEnv \<longrightarrow> \<not> terminated e1" using nt same by simp
  have maps: "node_to_qubit e2 = node_to_qubit e \<and> qubit_to_node e2 = qubit_to_node e"
    by (rule swap_steps_restore_mapping[OF mi a s1 s2 nt])
  note d1 = step_swap_detail[OF s1 a nt1]
  note d2 = step_swap_detail[OF s2 a1 nt2, unfolded same]
  from d1 obtain gs1 r where g1: "routed_gates e1 = routed_gates e @ (SwapGate, [fst ?edge, snd ?edge]) # gs1"
    and r: "swap_reward e ?edge = Inr r"
    and r1: "reward1 = r + (if variant e = SequentialRoutingEnv then scheduling_reward e1 else 0)"
    and n1: "noise_config e1 = noise_config e" "edge_to_log_reliability e1 = edge_to_log_reliability e"
    by blast
  from d2 obtain gs2 r' where g2: "routed_gates e2 = routed_gates e1 @ (SwapGate, [fst ?edge, snd ?edge]) # gs2"
    and r': "swap_reward e1 ?edge = Inr r'"
    and r2: "reward2 = r' + (if variant e = SequentialRoutingEnv then scheduling_reward e2 else 0)"
    by blast
  have rr: "r' = r" using r r' swap_reward_frame[OF n1, of ?edge] by simp
  have r3: "noise_config e = None \<longrightarrow> r = - 3" using r by (auto simp: swap_reward_def)
  have ne: "routed_gates e2 \<noteq> routed_gates e1" using g2 by simp
  from maps have m1: "node_to_qubit e2 = node_to_qubit e"
    and m2: "qubit_to_node e2 = qubit_to_node e"
    by simp_all
  have logs: "\<exists>gs1 gs2.
            routed_gates e1 =
              routed_gates e @ (SwapGate, [fst ?edge, snd ?edge]) # gs1 \<and>
            routed_gates e2 =
              routed_gates e1 @ (SwapGate, [fst ?edge, snd ?edge]) # gs2"
    by (rule exI[of _ gs1], rule exI[of _ gs2], rule conjI[OF g1 g2])
  have rew: "\<exists>r. swap_reward e ?edge = Inr r \<and>
              (noise_config e = None \<longrightarrow> r = - 3) \<and>
              reward1 = r + (if variant e = SequentialRoutingEnv then scheduling_reward e1 else 0) \<and>
              reward2 = r + (if variant e = SequentialRoutingEnv then scheduling_reward e2 else 0)"
    by (rule exI[of _ r], rule conjI[OF r conjI[OF r3 conjI[OF r1 r2[unfolded rr]]]])
  show ?thesis
    by (rule conjI[OF m1 conjI[OF m2 conjI[OF logs conjI[OF ne rew]]]])
qed

theorem swap_action_twice_restores_mapping_witness:
  "mutual_inverses (node_to_qubit (line_env SequentialRoutingEnv blocked_pair_circuit))
     (qubit_to_node (line_env SequentialRoutingEnv blocked_pair_circuit)) \<and>
   (\<exists>e1 e2. step (line_env SequentialRoutingEnv blocked_pair_circuit) 0 =
               Inr (- 2, False, False, [], e1) \<and>
            step e1 0 = Inr (- 2, True, False, [], e2) \<and>
            node_to_qubit e1 = [1, 0, 2] \<and> qubit_to_node e1 = [1, 0, 2] \<and>
            node_to_qubit e2 = [0, 1, 2] \<and> qubit_to_node e2 = [0, 1, 2] \<and>
            routed_gates e1 = [(SwapGate, [0, 1]), (CXGate, [1, 2])] \<and>
            routed_gates e2 \<noteq> routed_gates e1)"
proof -
  let ?e = "line_env SequentialRoutingEnv blocked_pair_circuit"
  have mi: "mutual_inverses (node_to_qubit ?e) (qubit_to_node ?e)" by code_simp
  have a: "0 < num_edges ?e" by (simp add: line_env_def)
  have c: "case step ?e 0 of
          Inl err \<Rightarrow> False
        | Inr (reward1, fin1, trunc1, printed1, e1) \<Rightarrow>
            (reward1 = - 2 \<and> \<not> fin1 \<and> \<not> trunc1 \<and> printed1 = [] \<and> \<not> terminated e1 \<and>
             node_to_qubit e1 = [1, 0, 2] \<and> qubit_to_node e1 = [1, 0, 2] \<and>
             routed_gates e1 = [(SwapGate, [0, 1]), (CXGate, [1, 2])]) \<and>
            (case step e1 0 of
               Inl err \<Rightarrow> False
             | Inr (reward2, fin2, trunc2, printed2, e2) \<Rightarrow>
                 reward2 = - 2 \<and> fin2 \<and> \<not> trunc2 \<and> printed2 = [])"
    by code_simp
  obtain x where sx: "step ?e 0 = Inr x" using c by (cases "step ?e 0") auto
  obtain reward1 fin1 trunc1 printed1 e1 where x: "x = (reward1, fin1, trunc1, printed1, e1)"
    by (cases x)
  from c have p1: "reward1 = - 2 \<and> \<not> fin1 \<and> \<not> trunc1 \<and> printed1 = [] \<and> \<not> terminated e1 \<and>
             node_to_qubit e1 = [1, 0, 2] \<and> qubit_to_node e1 = [1, 0, 2] \<and>
             routed_gates e1 = [(SwapGate, [0, 1]), (CXGate, [1, 2])]"
    and c2: "case step e1 0 of
               Inl err \<Rightarrow> False
             | Inr (reward2, fin2, trunc2, printed2, e2) \<Rightarrow>
                 reward2 = - 2 \<and> fin2 \<and> \<not> trunc2 \<and> printed2 = []"
    by (simp_all add: sx x)
  obtain y where sy: "step e1 0 = Inr y" using c2 by (cases "step e1 0") auto
  obtain reward2 fin2 trunc2 printed2 e2 where y: "y = (reward2, fin2, trunc2, printed2, e2)"
    by (cases y)
  from c2 have p2: "reward2 = - 2 \<and> fin2 \<and> \<not> trunc2 \<and> printed2 = []"
    by (simp add: sy y)
  have s1: "step ?e 0 = Inr (- 2, False, False, [], e1)" using sx x p1 by simp
  have s2: "step e1 0 = Inr (- 2, True, False, [], e2)" using sy y p2 by simp
  have t1: "\<not> terminated e1" using p1 by simp
  have f1: "node_to_qubit e1 = [1, 0, 2]" "qubit_to_node e1 = [1, 0, 2]"
      "routed_gates e1 = [(SwapGate, [0, 1]), (CXGate, [1, 2])]"
    using p1 by simp_all
  have t0: "\<not> terminated ?e" by code_simp
  have nt: "variant ?e = SequentialRoutingEnv \<longrightarrow> \<not> terminated ?e \<and> \<not> terminated e1"
    using t0 t1 by simp
  from swap_action_twice_restores_mapping [OF mi a s1 s2 nt]
  have "node_to_qubit e2 = node_to_qubit ?e \<and> qubit_to_node e2 = qubit_to_node ?e \<and>
        routed_gates e2 \<noteq> routed_gates e1"
    by blast
  then have "node_to_qubit e2 = [0, 1, 2] \<and> qubit_to_node e2 = [0, 1, 2] \<and>
        routed_gates e2 \<noteq> routed_gates e1"
    by (simp add: line_env_def)
  with mi s1 s2 f1 show ?thesis by blast
qed

text \<open>
  Claim C7 as stated fails twice. From the arrays that the constructor builds for the initial
  mapping [0, 0, 1], which are not inverses, two SWAP steps on the edge (0, 1) leave
  \<open>qubit_to_node\<close> as [0, 2, 0] where it was [1, 2, 0]. And on the identity mapping, when
  the first SWAP step on the edge (1, 2) commits the last gate, the second step is the step
  of a terminated environment and the mapping stays swapped.
\<close>

theorem swap_action_twice_keeps_mapping_changed:
  "(case RoutingEnv_init SequentialRoutingEnv no_commutation_pass line_graph
           (Some (line_circuit [cx 0 2 1])) (Some [0, 0, 1]) True False None None of
      Inl err \<Rightarrow> False
    | Inr e \<Rightarrow>
        \<not> terminated e \<and> node_to_qubit e = [0, 0, 1] \<and> qubit_to_node e = [1, 2, 0] \<and>
        (case step e 0 of
           Inl err \<Rightarrow> False
         | Inr (reward1, fin1, trunc1, printed1, e1) \<Rightarrow>
             \<not> fin1 \<and>
             (case step e1 0 of
                Inl err \<Rightarrow> False
              | Inr (reward2, fin2, trunc2, printed2, e2) \<Rightarrow>
                  node_to_qubit e2 = [0, 0, 1] \<and> qubit_to_node e2 = [0, 2, 0] \<and>
                  qubit_to_node e2 \<noteq> qubit_to_node e))) \<and>
   mutual_inverses (node_to_qubit (line_env SequentialRoutingEnv [cx 0 0 2]))
     (qubit_to_node (line_env SequentialRoutingEnv [cx 0 0 2])) \<and>
   \<not> terminated (line_env SequentialRoutingEnv [cx 0 0 2]) \<and>
   node_to_qubit (line_env SequentialRoutingEnv [cx 0 0 2]) = [0, 1, 2] \<and>
   (case step (line_env SequentialRoutingEnv [cx 0 0 2]) 1 of
      Inl err \<Rightarrow> False
    | Inr (reward1, fin1, trunc1, printed1, e1) \<Rightarrow>
        fin1 \<and> node_to_qubit e1 = [0, 2, 1] \<and>
        (case step e1 1 of
           Inl err \<Rightarrow> False
         | Inr (reward2, fin2, trunc2, printed2, e2) \<Rightarrow>
             reward2 = 0 \<and> node_to_qubit e2 = [0, 2, 1] \<and> qubit_to_node e2 = [0, 2, 1] \<and>
             node_to_qubit e2 \<noteq> node_to_qubit (line_env SequentialRoutingEnv [cx 0 0 2])))"
  by code_simp

subsection \<open>The scheduling pass with its lookahead\<close>

lemma free_qargs_loop_Cons:
  "free_qargs_loop e x (qubit # qs) locked_nodes gates =
     (case commuting_op_nodes e x qubit of
        Inl err \<Rightarrow> Inl err
      | Inr cs \<Rightarrow>
          (case commuting_loop e cs locked_nodes gates of
             Inl err \<Rightarrow> Inl err
           | Inr gates1 \<Rightarrow> free_qargs_loop e x qs locked_nodes gates1))"
  by (simp add: commuting_op_nodes_def Let_def split: option.splits)

lemma commuting_loop_set:
  assumes "commuting_loop e cs locked_nodes gates = Inr gates1"
  shows "set gates1 =
           set gates \<union> {g. fst g \<in> set cs \<and> nodes_of e (fst g) = Inr (snd g) \<and>
                           is_schedulable e (snd g) locked_nodes}"
  using assms
proof (induction cs arbitrary: gates)
  case Nil
  then show ?case by simp
next
  case (Cons c cs)
  from Cons.prems obtain ns where ns: "nodes_of e c = Inr ns"
    by (cases "nodes_of e c") (simp_all add: nodes_of_def)
  let ?g = "if is_schedulable e ns locked_nodes then oset_add (c, ns) gates else gates"
  from Cons.prems ns have "commuting_loop e cs locked_nodes ?g = Inr gates1"
    by (simp add: nodes_of_def)
  from Cons.IH[OF this] have ih: "set gates1 =
           set ?g \<union> {g. fst g \<in> set cs \<and> nodes_of e (fst g) = Inr (snd g) \<and>
                        is_schedulable e (snd g) locked_nodes}" .
  have g: "set ?g = set gates \<union> {g. fst g = c \<and> nodes_of e (fst g) = Inr (snd g) \<and>
                                   is_schedulable e (snd g) locked_nodes}"
    using ns by (auto simp: oset_add_def)
  show ?case unfolding ih g by auto
qed

lemma free_qargs_loop_set:
  assumes "free_qargs_loop e x qs locked_nodes gates = Inr gates1"
  shows "set gates1 =
           set gates \<union> {g. (\<exists>qubit \<in> set qs. \<exists>cs.
                               commuting_op_nodes e x qubit = Inr cs \<and> fst g \<in> set cs) \<and>
                           nodes_of e (fst g) = Inr (snd g) \<and>
                           is_schedulable e (snd g) locked_nodes}"
  using assms
proof (induction qs arbitrary: gates)
  case Nil
  then show ?case by simp
next
  case (Cons q qs)
  from Cons.prems obtain cs where cs: "commuting_op_nodes e x q = Inr cs"
    unfolding free_qargs_loop_Cons by (cases "commuting_op_nodes e x q") simp_all
  with Cons.prems obtain g1 where g1: "commuting_loop e cs locked_nodes gates = Inr g1"
    and rest: "free_qargs_loop e x qs locked_nodes g1 = Inr gates1"
    unfolding free_qargs_loop_Cons
    by (cases "commuting_loop e cs locked_nodes gates") simp_all
  note a = commuting_loop_set[OF g1]
  note b = Cons.IH[OF rest]
  show ?case unfolding b a using cs by auto
qed

lemma schedulable_loop_visit:
  assumes "schedulable_loop e [x] (gates, locked_nodes) = Inr (gates1, locked1)"
    and "nodes_of e x = Inr nodes"
  shows "(is_schedulable e nodes locked_nodes \<longrightarrow>
            gates1 = oset_add (x, nodes) gates \<and> locked1 = locked_nodes) \<and>
         (\<not> is_schedulable e nodes locked_nodes \<longrightarrow>
            locked1 = locked_nodes \<union> set nodes \<and>
            set gates1 = set gates \<union> lookahead_gates e x locked_nodes \<and>
            (\<not> commutation_analysis e \<longrightarrow> gates1 = gates))"
proof (cases "is_schedulable e nodes locked_nodes")
  case True
  with assms show ?thesis
    unfolding schedulable_loop_single[OF assms(2)] by simp
next
  case False
  show ?thesis
  proof (cases "commutation_analysis e")
    case ca: True
    from assms False ca have f: "free_qargs_loop e x (filter (\<lambda>q. q \<notin> locked_nodes) (qargs x))
             locked_nodes gates = Inr gates1" and l: "locked1 = locked_nodes \<union> set nodes"
      unfolding schedulable_loop_single[OF assms(2)] by (auto split: sum.splits)
    have "set gates1 = set gates \<union> lookahead_gates e x locked_nodes"
      unfolding free_qargs_loop_set[OF f] lookahead_gates_def using ca by auto
    with False ca l show ?thesis by simp
  next
    case nca: False
    from assms False nca have "gates1 = gates" and "locked1 = locked_nodes \<union> set nodes"
      unfolding schedulable_loop_single[OF assms(2)] by auto
    moreover have "lookahead_gates e x locked_nodes = {}"
      using nca by (simp add: lookahead_gates_def)
    ultimately show ?thesis using False by simp
  qed
qed


lemma schedulable_loop_Cons:
  "schedulable_loop e (x # xs) st =
     (case schedulable_loop e [x] st of
        Inl err \<Rightarrow> Inl err
      | Inr s \<Rightarrow> if card (snd s) = num_qubits e then Inr s else schedulable_loop e xs s)"
  by (cases st) (auto split: sum.splits)

lemma schedulable_loop_break:
  assumes "schedulable_loop e xs st = Inr st1" and "xs \<noteq> []"
    and "card (snd st1) = num_qubits e"
  shows "schedulable_loop e (xs @ ys) st = Inr st1"
  using assms
proof (induction xs arbitrary: st)
  case Nil
  then show ?case by simp
next
  case (Cons x xs)
  from Cons.prems(1) obtain s where s: "schedulable_loop e [x] st = Inr s"
    unfolding schedulable_loop_Cons[of e x xs] by (cases "schedulable_loop e [x] st") simp_all
  show ?case
  proof (cases "card (snd s) = num_qubits e")
    case True
    with Cons.prems(1) s have "st1 = s" unfolding schedulable_loop_Cons[of e x xs] by simp
    with True s show ?thesis unfolding append_Cons schedulable_loop_Cons[of e x "xs @ ys"] by simp
  next
    case False
    with Cons.prems(1) s have rest: "schedulable_loop e xs s = Inr st1"
      unfolding schedulable_loop_Cons[of e x xs] by simp
    have "xs \<noteq> []" using rest False Cons.prems(3) by (cases xs) auto
    from Cons.IH[OF rest this Cons.prems(3)] s False show ?thesis
      unfolding append_Cons schedulable_loop_Cons[of e x "xs @ ys"] by simp
  qed
qed

lemma is_schedulable_disjoint:
  "is_schedulable e ns locked_nodes \<Longrightarrow> set ns \<inter> locked_nodes = {}"
  by (auto simp: is_schedulable_def Let_def)

lemma schedulable_loop_visit_mono:
  assumes "schedulable_loop e [x] (gates, locked_nodes) = Inr (gates1, locked1)"
  shows "locked_nodes \<subseteq> locked1 \<and> set gates \<subseteq> set gates1 \<and>
         (\<forall>g \<in> set gates1 - set gates. set (snd g) \<inter> locked_nodes = {})"
proof -
  from assms obtain nodes where n: "nodes_of e x = Inr nodes"
    by (cases "nodes_of e x") (simp_all add: nodes_of_def)
  note v = schedulable_loop_visit[OF assms n]
  show ?thesis
  proof (cases "is_schedulable e nodes locked_nodes")
    case True
    with v have "gates1 = oset_add (x, nodes) gates" "locked1 = locked_nodes" by simp_all
    then show ?thesis using is_schedulable_disjoint[OF True] by (auto simp: oset_add_def)
  next
    case False
    with v have l: "locked1 = locked_nodes \<union> set nodes"
      and g: "set gates1 = set gates \<union> lookahead_gates e x locked_nodes"
      by simp_all
    have "\<forall>g \<in> lookahead_gates e x locked_nodes. set (snd g) \<inter> locked_nodes = {}"
      using is_schedulable_disjoint by (auto simp: lookahead_gates_def)
    then show ?thesis using l g by auto
  qed
qed

lemma schedulable_loop_mono:
  assumes "schedulable_loop e xs (gates, locked_nodes) = Inr (gates1, locked1)"
  shows "locked_nodes \<subseteq> locked1 \<and> set gates \<subseteq> set gates1 \<and>
         (\<forall>g \<in> set gates1 - set gates. set (snd g) \<inter> locked_nodes = {})"
  using assms
proof (induction xs arbitrary: gates locked_nodes)
  case Nil
  then show ?case by simp
next
  case (Cons x xs)
  from Cons.prems obtain s where s: "schedulable_loop e [x] (gates, locked_nodes) = Inr s"
    unfolding schedulable_loop_Cons[of e x xs]
    by (cases "schedulable_loop e [x] (gates, locked_nodes)") simp_all
  obtain g1 l1 where sp: "s = (g1, l1)" by (cases s)
  note v = schedulable_loop_visit_mono[OF s[unfolded sp]]
  show ?case
  proof (cases "card (snd s) = num_qubits e")
    case True
    with Cons.prems s have "(gates1, locked1) = s" unfolding schedulable_loop_Cons[of e x xs] by simp
    with v sp show ?thesis by simp
  next
    case False
    with Cons.prems s have "schedulable_loop e xs (g1, l1) = Inr (gates1, locked1)"
      unfolding schedulable_loop_Cons[of e x xs] sp by simp
    from Cons.IH[OF this] have ih: "l1 \<subseteq> locked1" "set g1 \<subseteq> set gates1"
      "\<forall>g \<in> set gates1 - set g1. set (snd g) \<inter> l1 = {}"
      by simp_all
    from v have v1: "locked_nodes \<subseteq> l1" "set gates \<subseteq> set g1"
      "\<forall>g \<in> set g1 - set gates. set (snd g) \<inter> locked_nodes = {}"
      by simp_all
    have "\<forall>g \<in> set gates1 - set gates. set (snd g) \<inter> locked_nodes = {}"
    proof
      fix g assume g: "g \<in> set gates1 - set gates"
      show "set (snd g) \<inter> locked_nodes = {}"
      proof (cases "g \<in> set g1")
        case True
        with g v1(3) show ?thesis by simp
      next
        case False
        with g ih(3) have "set (snd g) \<inter> l1 = {}" by simp
        with v1(1) show ?thesis by blast
      qed
    qed
    with ih v1 show ?thesis by blast
  qed
qed

lemma schedulable_loop_later:
  assumes r1: "schedulable_loop e (pre @ [x]) st = Inr (gates1, locked1)"
    and r2: "schedulable_loop e (pre @ x # post) st = Inr (gates2, locked2)"
  shows "locked1 \<subseteq> locked2 \<and> set gates1 \<subseteq> set gates2 \<and>
         (\<forall>g \<in> set gates2 - set gates1. set (snd g) \<inter> locked1 = {})"
proof (cases "card locked1 = num_qubits e")
  case True
  have "schedulable_loop e ((pre @ [x]) @ post) st = Inr (gates1, locked1)"
    by (rule schedulable_loop_break[OF r1]) (simp_all add: True)
  with r2 show ?thesis by simp
next
  case False
  have "schedulable_loop e ((pre @ [x]) @ post) st = schedulable_loop e post (gates1, locked1)"
    by (rule schedulable_loop_stopped[OF r1]) (simp_all add: False)
  with r2 have "schedulable_loop e post (gates1, locked1) = Inr (gates2, locked2)" by simp
  then show ?thesis by (rule schedulable_loop_mono)
qed

text \<open>
  Claim C2, amended. At any point of a scheduling pass that has not stopped, with the
  operations \<open>pre\<close> visited so far, the operation visited next is schedulable iff its node
  tuple does not have length two or its two nodes are joined by an edge, and none of its nodes
  is locked. If it is, it is added to the gates and the locked nodes stay as they are:
  scheduling claims no node. If it is not, all its nodes are locked, also when the lookahead
  of an earlier operation has scheduled it already; before that, the lookahead adds to the
  gates exactly its candidates that pass the same test under the nodes locked so far, and
  nothing without commutation analysis. Locked nodes stay locked to the end of the pass, and
  no gate added later in the pass touches them. So the locked nodes are those of the visited
  operations that were not schedulable at their visit.
\<close>

theorem scheduling_pass_locks_blocked_operations:
  assumes "schedulable_loop e pre ([], {}) = Inr (gates, locked_nodes)"
    and "card locked_nodes \<noteq> num_qubits e"
    and "nodes_of e x = Inr nodes"
  shows "(is_schedulable e nodes locked_nodes \<longleftrightarrow>
            (length nodes \<noteq> 2 \<or> has_edge (coupling_map e) (nodes ! 0) (nodes ! 1)) \<and>
            locked_nodes \<inter> set nodes = {}) \<and>
         (is_schedulable e nodes locked_nodes \<longrightarrow>
            schedulable_loop e (pre @ [x]) ([], {}) =
              Inr (oset_add (x, nodes) gates, locked_nodes)) \<and>
         (\<forall>gates1 locked1.
            schedulable_loop e (pre @ [x]) ([], {}) = Inr (gates1, locked1) \<longrightarrow>
              (\<not> is_schedulable e nodes locked_nodes \<longrightarrow>
                 locked1 = locked_nodes \<union> set nodes \<and>
                 set gates1 = set gates \<union> lookahead_gates e x locked_nodes \<and>
                 (\<not> commutation_analysis e \<longrightarrow> gates1 = gates)) \<and>
              (\<forall>post gates2 locked2.
                 schedulable_loop e (pre @ x # post) ([], {}) = Inr (gates2, locked2) \<longrightarrow>
                   locked1 \<subseteq> locked2 \<and> set gates1 \<subseteq> set gates2 \<and>
                   (\<forall>g \<in> set gates2 - set gates1. set (snd g) \<inter> locked1 = {})))"
proof -
  note eq = schedulable_loop_snoc[OF assms(1,2), of x]
  have a: "is_schedulable e nodes locked_nodes \<longleftrightarrow>
            (length nodes \<noteq> 2 \<or> has_edge (coupling_map e) (nodes ! 0) (nodes ! 1)) \<and>
            locked_nodes \<inter> set nodes = {}"
    by (simp add: is_schedulable_def Let_def)
  have b: "is_schedulable e nodes locked_nodes \<longrightarrow>
            schedulable_loop e (pre @ [x]) ([], {}) =
              Inr (oset_add (x, nodes) gates, locked_nodes)"
    unfolding eq schedulable_loop_single[OF assms(3)] by simp
  have c: "(\<not> is_schedulable e nodes locked_nodes \<longrightarrow>
                 locked1 = locked_nodes \<union> set nodes \<and>
                 set gates1 = set gates \<union> lookahead_gates e x locked_nodes \<and>
                 (\<not> commutation_analysis e \<longrightarrow> gates1 = gates)) \<and>
              (\<forall>post gates2 locked2.
                 schedulable_loop e (pre @ x # post) ([], {}) = Inr (gates2, locked2) \<longrightarrow>
                   locked1 \<subseteq> locked2 \<and> set gates1 \<subseteq> set gates2 \<and>
                   (\<forall>g \<in> set gates2 - set gates1. set (snd g) \<inter> locked1 = {}))"
    if r: "schedulable_loop e (pre @ [x]) ([], {}) = Inr (gates1, locked1)" for gates1 locked1
  proof -
    from r have v: "schedulable_loop e [x] (gates, locked_nodes) = Inr (gates1, locked1)"
      unfolding eq .
    from schedulable_loop_visit[OF v assms(3)] have c1: "\<not> is_schedulable e nodes locked_nodes \<longrightarrow>
                 locked1 = locked_nodes \<union> set nodes \<and>
                 set gates1 = set gates \<union> lookahead_gates e x locked_nodes \<and>
                 (\<not> commutation_analysis e \<longrightarrow> gates1 = gates)"
      by blast
    have c2: "\<forall>post gates2 locked2.
                 schedulable_loop e (pre @ x # post) ([], {}) = Inr (gates2, locked2) \<longrightarrow>
                   locked1 \<subseteq> locked2 \<and> set gates1 \<subseteq> set gates2 \<and>
                   (\<forall>g \<in> set gates2 - set gates1. set (snd g) \<inter> locked1 = {})"
      using schedulable_loop_later[OF r] by blast
    show ?thesis by (rule conjI[OF c1 c2])
  qed
  from c have c': "\<forall>gates1 locked1.
            schedulable_loop e (pre @ [x]) ([], {}) = Inr (gates1, locked1) \<longrightarrow>
              (\<not> is_schedulable e nodes locked_nodes \<longrightarrow>
                 locked1 = locked_nodes \<union> set nodes \<and>
                 set gates1 = set gates \<union> lookahead_gates e x locked_nodes \<and>
                 (\<not> commutation_analysis e \<longrightarrow> gates1 = gates)) \<and>
              (\<forall>post gates2 locked2.
                 schedulable_loop e (pre @ x # post) ([], {}) = Inr (gates2, locked2) \<longrightarrow>
                   locked1 \<subseteq> locked2 \<and> set gates1 \<subseteq> set gates2 \<and>
                   (\<forall>g \<in> set gates2 - set gates1. set (snd g) \<inter> locked1 = {}))"
    by blast
  show ?thesis by (rule conjI[OF a conjI[OF b c']])
qed


theorem scheduling_pass_locks_blocked_operations_witness:
  "schedulable_loop commuting_line_env [cx 0 0 2] ([], {}) =
     Inr ([(cx 1 0 1, [0, 1])], {0, 2}) \<and>
   \<not> is_schedulable commuting_line_env [0, 1] {0, 2} \<and>
   (\<exists>gates1. schedulable_loop commuting_line_env ([cx 0 0 2] @ [cx 1 0 1]) ([], {}) =
                Inr (gates1, {0, 2} \<union> set [0, 1]) \<and>
              (cx 1 0 1, [0, 1]) \<in> set gates1) \<and>
   is_schedulable (line_env SequentialRoutingEnv [cx 0 0 1, cx 1 0 1]) [0, 1] {} \<and>
   schedulable_loop (line_env SequentialRoutingEnv [cx 0 0 1, cx 1 0 1])
     ([cx 0 0 1] @ [cx 1 0 1]) ([], {}) =
     Inr (oset_add (cx 1 0 1, [0, 1]) [(cx 0 0 1, [0, 1])], {})"
proof -
  let ?e = "commuting_line_env"
  let ?f = "line_env SequentialRoutingEnv [cx 0 0 1, cx 1 0 1]"
  have h1: "schedulable_loop ?e [cx 0 0 2] ([], {}) = Inr ([(cx 1 0 1, [0, 1])], {0, 2})"
    by code_simp
  have h2: "card {0, 2 :: nat} \<noteq> num_qubits ?e" by code_simp
  have h3: "nodes_of ?e (cx 1 0 1) = Inr [0, 1]" by code_simp
  have n: "\<not> is_schedulable ?e [0, 1] {0, 2}" by code_simp
  have "case schedulable_loop ?e ([cx 0 0 2] @ [cx 1 0 1]) ([], {}) of
          Inl err \<Rightarrow> False | Inr st \<Rightarrow> True"
    by code_simp
  then obtain gates1 locked1 where
    r: "schedulable_loop ?e ([cx 0 0 2] @ [cx 1 0 1]) ([], {}) = Inr (gates1, locked1)"
    by (auto split: sum.splits)
  from scheduling_pass_locks_blocked_operations [OF h1 h2 h3] n r
  have "locked1 = {0, 2} \<union> set [0, 1] \<and>
        set gates1 = set [(cx 1 0 1, [0, 1])] \<union> lookahead_gates ?e (cx 1 0 1) {0, 2}"
    by blast
  then have blocked: "schedulable_loop ?e ([cx 0 0 2] @ [cx 1 0 1]) ([], {}) =
                Inr (gates1, {0, 2} \<union> set [0, 1]) \<and> (cx 1 0 1, [0, 1]) \<in> set gates1"
    using r by simp
  have k1: "schedulable_loop ?f [cx 0 0 1] ([], {}) = Inr ([(cx 0 0 1, [0, 1])], {})"
    by code_simp
  have k2: "card ({} :: nat set) \<noteq> num_qubits ?f" by (simp add: line_env_def)
  have k3: "nodes_of ?f (cx 1 0 1) = Inr [0, 1]" by code_simp
  have y: "is_schedulable ?f [0, 1] {}" by code_simp
  from scheduling_pass_locks_blocked_operations [OF k1 k2 k3] y
  have scheduled: "schedulable_loop ?f ([cx 0 0 1] @ [cx 1 0 1]) ([], {}) =
     Inr (oset_add (cx 1 0 1, [0, 1]) [(cx 0 0 1, [0, 1])], {})"
    by blast
  show ?thesis using h1 n blocked y scheduled by blast
qed

end
